theory Spec2Isabelle
  imports Complex_Main "HOL-Library.Word" "HOL-Library.Sublist"
begin

section \<open>Data of the UCT pilot\<close>

text \<open>
  The planner is the class \<^verbatim>\<open>b03_uct_pilot\<close> of \<^verbatim>\<open>pilot/mcts/b03_uct_pilot.hpp\<close>.
  C++ \<^verbatim>\<open>double\<close> is modelled by \<^typ>\<open>real\<close>, \<^verbatim>\<open>unsigned int\<close> by \<^typ>\<open>32 word\<close>.
  One-letter attributes of the source (\<^verbatim>\<open>s\<close>, \<^verbatim>\<open>u\<close>, \<^verbatim>\<open>z\<close>, \<^verbatim>\<open>V\<close>) carry a suffix,
  so that they do not capture variable names.
\<close>

text \<open>
  The attributes of \<^verbatim>\<open>beeler_glider_state\<close> that the sources under study read or write
  (the declaration of the class is not among them).
\<close>

record beeler_glider_state =
  x_st :: real
  y_st :: real
  z_st :: real
  V_st :: real
  gamma :: real
  khi :: real
  alpha :: real
  beta :: real
  sigma :: real
  xdot :: real
  ydot :: real
  zdot :: real
  Vdot :: real
  gammadot :: real
  khidot :: real
  time :: real

record beeler_glider_command =
  dalpha :: real
  dbeta :: real
  dsigma :: real

text \<open>The aircraft model \<^verbatim>\<open>beeler_glider\<close>: its state, its command and its constructor arguments.\<close>

record beeler_glider =
  s_ac :: beeler_glider_state
  u_ac :: beeler_glider_command
  mass :: real
  wingspan :: real
  aspect_ratio :: real

definition set_state :: "beeler_glider \<Rightarrow> beeler_glider_state \<Rightarrow> beeler_glider" where
  "set_state a st = a\<lparr>s_ac := st\<rparr>"

definition set_command :: "beeler_glider \<Rightarrow> beeler_glider_command \<Rightarrow> beeler_glider" where
  "set_command a c = a\<lparr>u_ac := c\<rparr>"

definition get_state :: "beeler_glider \<Rightarrow> beeler_glider_state" where
  "get_state a = s_ac a"

text \<open>
  What can go wrong in the C++: a failed \<^verbatim>\<open>assert\<close>, the exception of \<^verbatim>\<open>vector::at\<close>,
  and undefined behaviour (a null or dangling pointer, a draw from an empty vector).
\<close>

datatype error = Assertion_failed | Out_of_range | Undefined_behaviour

text \<open>
  A \<^verbatim>\<open>b03_node &\<close> designates either a node of the tree owned by the root \<^verbatim>\<open>v0\<close> of
  \<^verbatim>\<open>operator()\<close>, given by the child indices that lead to it from the root, or the
  local node \<^verbatim>\<open>v\<close> of the loop body. A \<^verbatim>\<open>b03_node *\<close> is such a designation, or unset.
\<close>

datatype ref = In_v0 "nat list" | Local_v

text \<open>
  Modelled from the spec: the node class that the planner includes
  (\<^verbatim>\<open>pilot/mcts/b03_node.hpp\<close>) is missing from the sources. Its attributes are the ones the
  planner reads and writes; they are the spec's state, incoming action, untried actions,
  accumulated return, visit count, depth, parent back-reference and owned children. The
  class of the same name in \<^verbatim>\<open>pilot/uct/b03_node.hpp\<close> has other attributes and another
  constructor; it is not the one the planner includes.
\<close>

datatype b03_node = B03_node
  (s_node: beeler_glider_state)
  (incoming_action: beeler_glider_command)
  (expendable_actions: "beeler_glider_command list")
  (average_reward: real)
  (number_of_visits: "32 word")
  (depth: "32 word")
  (parent: "ref option")
  (children: "b03_node list")

definition default_state :: beeler_glider_state where
  "default_state = \<lparr>x_st = 0, y_st = 0, z_st = 0, V_st = 0, gamma = 0, khi = 0, alpha = 0,
     beta = 0, sigma = 0, xdot = 0, ydot = 0, zdot = 0, Vdot = 0, gammadot = 0, khidot = 0,
     time = 0\<rparr>"

definition default_command :: beeler_glider_command where
  "default_command = \<lparr>dalpha = 0, dbeta = 0, dsigma = 0\<rparr>"

text \<open>
  Modelled from the spec: the two constructors the planner calls,
  \<^verbatim>\<open>b03_node(s, actions, 0., 1, depth)\<close> and \<^verbatim>\<open>b03_node(actions, 0., 0, 0)\<close>, store their
  arguments in the attributes of the same kind (untried actions, accumulated return, visit
  count, depth); the node has no children and no parent yet. The attributes that get no
  argument are read by the planner only after it has assigned them.
\<close>

definition new_node ::
  "beeler_glider_state \<Rightarrow> beeler_glider_command list \<Rightarrow> real \<Rightarrow> 32 word \<Rightarrow> 32 word \<Rightarrow> b03_node" where
  "new_node st acts r n d = B03_node st default_command acts r n d None []"

definition new_node_stateless ::
  "beeler_glider_command list \<Rightarrow> real \<Rightarrow> 32 word \<Rightarrow> 32 word \<Rightarrow> b03_node" where
  "new_node_stateless acts r n d = B03_node default_state default_command acts r n d None []"

text \<open>Modelled from the spec: a node is fully expanded iff its set of untried actions is empty.\<close>

definition is_fully_expanded :: "b03_node \<Rightarrow> bool" where
  "is_fully_expanded n = (expendable_actions n = [])"

text \<open>
  The attributes of the pilot that no method assigns. The transition function is the
  function pointer given to the constructor: it receives the pilot's aircraft and flight
  zone by reference, the current time by reference, and the two step widths.
\<close>

record 'fz b03_uct_pilot =
  transition_function ::
    "beeler_glider \<Rightarrow> 'fz \<Rightarrow> real \<Rightarrow> real \<Rightarrow> real \<Rightarrow> beeler_glider \<times> 'fz \<times> real"
  angle_rate_magnitude :: real
  uct_parameter :: real
  time_step_width :: real
  sub_time_step_width :: real
  df :: real
  horizon :: "32 word"
  computational_budget :: "32 word"

text \<open>
  Everything the planner can write during one call of \<^verbatim>\<open>operator()\<close>: the pilot's own
  aircraft and flight zone (\<^verbatim>\<open>ac\<close>, \<^verbatim>\<open>fz\<close>), the caller's objects behind the
  references \<^verbatim>\<open>_s\<close> and \<^verbatim>\<open>_a\<close>, the locals \<^verbatim>\<open>v0\<close> and \<^verbatim>\<open>v\<close>, and the number of random
  numbers drawn so far.
\<close>

record 'fz frame =
  ac :: beeler_glider
  fz :: 'fz
  arg_s :: beeler_glider_state
  arg_a :: beeler_glider_command
  var_v0 :: b03_node
  var_v :: b03_node
  rand_calls :: nat

section \<open>Helpers\<close>

text \<open>
  Modelled from the spec: \<^verbatim>\<open>rand_indice\<close> and \<^verbatim>\<open>rand_element\<close> (utilities missing from the
  sources) pick an index, respectively an element, of a vector at random. The random
  source is a parameter: \<open>rnd k\<close> is the \<open>k\<close>-th number drawn. Nothing can be picked from an
  empty vector.
\<close>

definition rand_indice ::
  "(nat \<Rightarrow> nat) \<Rightarrow> 'fz frame \<Rightarrow> 'a list \<Rightarrow> error + (nat \<times> 'fz frame)" where
  "rand_indice rnd w xs =
     (if xs = [] then Inl Undefined_behaviour
      else Inr (rnd (rand_calls w) mod length xs, w\<lparr>rand_calls := Suc (rand_calls w)\<rparr>))"

definition rand_element ::
  "(nat \<Rightarrow> nat) \<Rightarrow> 'fz frame \<Rightarrow> 'a list \<Rightarrow> error + ('a \<times> 'fz frame)" where
  "rand_element rnd w xs =
     (case rand_indice rnd w xs of
        Inl e \<Rightarrow> Inl e
      | Inr (i, w') \<Rightarrow> Inr (xs ! i, w'))"

text \<open>
  Modelled from the spec: \<^verbatim>\<open>sort_indices(scores, max_indices)\<close> (missing from the sources)
  fills \<^verbatim>\<open>max_indices\<close> with the indices of the entries that attain the maximum.
\<close>

definition sort_indices :: "real list \<Rightarrow> nat list" where
  "sort_indices scores =
     filter (\<lambda>i. \<forall>x \<in> set scores. x \<le> scores ! i) [0..<length scores]"

text \<open>\<^verbatim>\<open>vector::at\<close>, which throws when the index is out of range.\<close>

definition at_vec :: "'a list \<Rightarrow> nat \<Rightarrow> error + 'a" where
  "at_vec xs i = (if i < length xs then Inr (xs ! i) else Inl Out_of_range)"

text \<open>\<^verbatim>\<open>vector::erase(begin() + i)\<close>.\<close>

definition erase :: "'a list \<Rightarrow> nat \<Rightarrow> 'a list" where
  "erase xs i = take i xs @ drop (Suc i) xs"

subsection \<open>Nodes behind references\<close>

fun node_at :: "b03_node \<Rightarrow> nat list \<Rightarrow> b03_node option" where
  "node_at n [] = Some n"
| "node_at n (i # q) =
     (if i < length (children n) then node_at (children n ! i) q else None)"

fun children_update :: "(b03_node list \<Rightarrow> b03_node list) \<Rightarrow> b03_node \<Rightarrow> b03_node" where
  "children_update f (B03_node st a e r n d p cs) = B03_node st a e r n d p (f cs)"

fun expendable_actions_update ::
  "(beeler_glider_command list \<Rightarrow> beeler_glider_command list) \<Rightarrow> b03_node \<Rightarrow> b03_node" where
  "expendable_actions_update f (B03_node st a e r n d p cs) = B03_node st a (f e) r n d p cs"

fun number_of_visits_update :: "(32 word \<Rightarrow> 32 word) \<Rightarrow> b03_node \<Rightarrow> b03_node" where
  "number_of_visits_update f (B03_node st a e r n d p cs) = B03_node st a e r (f n) d p cs"

fun average_reward_update :: "(real \<Rightarrow> real) \<Rightarrow> b03_node \<Rightarrow> b03_node" where
  "average_reward_update f (B03_node st a e r n d p cs) = B03_node st a e (f r) n d p cs"

fun incoming_action_update ::
  "(beeler_glider_command \<Rightarrow> beeler_glider_command) \<Rightarrow> b03_node \<Rightarrow> b03_node" where
  "incoming_action_update f (B03_node st a e r n d p cs) = B03_node st (f a) e r n d p cs"

fun parent_update :: "(ref option \<Rightarrow> ref option) \<Rightarrow> b03_node \<Rightarrow> b03_node" where
  "parent_update f (B03_node st a e r n d p cs) = B03_node st a e r n d (f p) cs"

text \<open>Applying a change to the node of the tree that a path designates.\<close>

fun modify_at :: "(b03_node \<Rightarrow> b03_node) \<Rightarrow> nat list \<Rightarrow> b03_node \<Rightarrow> b03_node" where
  "modify_at f [] n = f n"
| "modify_at f (i # q) n =
     (if i < length (children n)
      then children_update (\<lambda>cs. cs[i := modify_at f q (cs ! i)]) n
      else n)"

text \<open>The number of nodes of a tree.\<close>

fun count_nodes :: "b03_node \<Rightarrow> nat" where
  "count_nodes (B03_node st a e r n d p cs) = Suc (sum_list (map count_nodes cs))"

definition deref :: "'fz frame \<Rightarrow> ref \<Rightarrow> b03_node option" where
  "deref w r = (case r of In_v0 q \<Rightarrow> node_at (var_v0 w) q | Local_v \<Rightarrow> Some (var_v w))"

definition modify_ref :: "(b03_node \<Rightarrow> b03_node) \<Rightarrow> ref \<Rightarrow> 'fz frame \<Rightarrow> 'fz frame" where
  "modify_ref f r w =
     (case r of
        In_v0 q \<Rightarrow> w\<lparr>var_v0 := modify_at f q (var_v0 w)\<rparr>
      | Local_v \<Rightarrow> w\<lparr>var_v := f (var_v w)\<rparr>)"

section \<open>The methods of the pilot\<close>

definition is_terminal :: "beeler_glider_state \<Rightarrow> bool" where
  "is_terminal st = (if z_st st < 0 then True else False)"

text \<open>
  \<^verbatim>\<open>get_uct_score\<close>: the assertion comes first, then the parent pointer is followed.
\<close>

definition get_uct_score :: "'fz b03_uct_pilot \<Rightarrow> 'fz frame \<Rightarrow> b03_node \<Rightarrow> error + real" where
  "get_uct_score P w vn =
     (let nchild = real (unat (number_of_visits vn)) in
      if nchild = 0 then Inl Assertion_failed
      else (case parent vn of
              None \<Rightarrow> Inl Undefined_behaviour
            | Some p \<Rightarrow>
                (case deref w p of
                   None \<Rightarrow> Inl Undefined_behaviour
                 | Some pn \<Rightarrow>
                     (let nparent = real (unat (number_of_visits pn)) in
                      Inr (average_reward vn
                           + 2 * uct_parameter P * sqrt (2 * ln nparent / nchild))))))"

text \<open>The loop of \<^verbatim>\<open>get_best_uct_child\<close> that fills \<^verbatim>\<open>scores\<close>.\<close>

fun uct_scores :: "'fz b03_uct_pilot \<Rightarrow> 'fz frame \<Rightarrow> b03_node list \<Rightarrow> error + real list" where
  "uct_scores P w [] = Inr []"
| "uct_scores P w (c # cs) =
     (case get_uct_score P w c of
        Inl e \<Rightarrow> Inl e
      | Inr x \<Rightarrow> (case uct_scores P w cs of Inl e \<Rightarrow> Inl e | Inr xs \<Rightarrow> Inr (x # xs)))"

text \<open>
  \<^verbatim>\<open>get_best_uct_child\<close> returns a reference to a child of the node behind \<open>q\<close>: the path
  of that child.
\<close>

definition get_best_uct_child ::
  "'fz b03_uct_pilot \<Rightarrow> (nat \<Rightarrow> nat) \<Rightarrow> 'fz frame \<Rightarrow> nat list \<Rightarrow> error + (nat list \<times> 'fz frame)" where
  "get_best_uct_child P rnd w q =
     (case node_at (var_v0 w) q of
        None \<Rightarrow> Inl Undefined_behaviour
      | Some pn \<Rightarrow>
          (case uct_scores P w (children pn) of
             Inl e \<Rightarrow> Inl e
           | Inr scores \<Rightarrow>
               (case rand_element rnd w (sort_indices scores) of
                  Inl e \<Rightarrow> Inl e
                | Inr (i, w') \<Rightarrow>
                    (case at_vec (children pn) i of
                       Inl e \<Rightarrow> Inl e
                     | Inr c \<Rightarrow> Inr (q @ [i], w')))))"

definition get_expendable_actions :: "'fz b03_uct_pilot \<Rightarrow> beeler_glider_command list" where
  "get_expendable_actions P =
     [\<lparr>dalpha = 0, dbeta = 0, dsigma = angle_rate_magnitude P\<rparr>,
      \<lparr>dalpha = 0, dbeta = 0, dsigma = 0\<rparr>,
      \<lparr>dalpha = 0, dbeta = 0, dsigma = - angle_rate_magnitude P\<rparr>]"

text \<open>\<^verbatim>\<open>get_transition_model\<close> works on the pilot's own aircraft and flight zone.\<close>

definition get_transition_model ::
  "'fz b03_uct_pilot \<Rightarrow> 'fz frame \<Rightarrow> beeler_glider_state \<Rightarrow> beeler_glider_command
     \<Rightarrow> beeler_glider_state \<times> 'fz frame" where
  "get_transition_model P w st a =
     (let s_prime = st;
          ac1 = set_state (ac w) s_prime;
          ac2 = set_command ac1 a;
          current_time = time s_prime;
          (ac3, fz3, current_time') =
             transition_function P ac2 (fz w) current_time (time_step_width P)
               (sub_time_step_width P);
          s_prime' = get_state ac3
      in (s_prime', w\<lparr>ac := ac3, fz := fz3\<rparr>))"

definition get_reward_model ::
  "beeler_glider_state \<Rightarrow> beeler_glider_command \<Rightarrow> beeler_glider_state \<Rightarrow> real" where
  "get_reward_model s_t a_t s_tp = zdot s_t + V_st s_t * Vdot s_t / 9.81"

text \<open>
  Modelled from the spec: \<^verbatim>\<open>get_last_child\<close>, a method of the missing node class, gives
  the last entry of the children, the child that \<^verbatim>\<open>create_new_child\<close> has just appended.
\<close>

definition get_last_child :: "b03_node \<Rightarrow> error + b03_node" where
  "get_last_child n = (if children n = [] then Inl Undefined_behaviour else Inr (last (children n)))"

text \<open>
  \<^verbatim>\<open>create_new_child\<close> on the node of the tree behind \<open>q\<close>. The new child points back to
  that node.
\<close>

definition create_new_child ::
  "'fz b03_uct_pilot \<Rightarrow> (nat \<Rightarrow> nat) \<Rightarrow> 'fz frame \<Rightarrow> nat list \<Rightarrow> error + 'fz frame" where
  "create_new_child P rnd w q =
     (case node_at (var_v0 w) q of
        None \<Rightarrow> Inl Undefined_behaviour
      | Some vn \<Rightarrow>
          (case rand_indice rnd w (expendable_actions vn) of
             Inl e \<Rightarrow> Inl e
           | Inr (indice, w1) \<Rightarrow>
               (case at_vec (expendable_actions vn) indice of
                  Inl e \<Rightarrow> Inl e
                | Inr a \<Rightarrow>
                    (let w2 = modify_ref (expendable_actions_update (\<lambda>e. erase e indice))
                                (In_v0 q) w1;
                         (s_prime, w3) = get_transition_model P w2 (s_node vn) a;
                         new_child = new_node s_prime (get_expendable_actions P) 0 1
                                       (depth vn + 1);
                         new_child1 = incoming_action_update (\<lambda>_. a) new_child;
                         new_child2 = parent_update (\<lambda>_. Some (In_v0 q)) new_child1
                     in Inr (modify_ref (children_update (\<lambda>cs. cs @ [new_child2]))
                               (In_v0 q) w3)))))"

text \<open>
  \<^verbatim>\<open>tree_policy(v0, v)\<close>: \<open>q\<close> designates the node \<^verbatim>\<open>v0\<close> of the call, the second argument
  is always the local \<^verbatim>\<open>v\<close> of \<^verbatim>\<open>operator()\<close>, which receives a copy by assignment.
\<close>

function tree_policy ::
  "'fz b03_uct_pilot \<Rightarrow> (nat \<Rightarrow> nat) \<Rightarrow> 'fz frame \<Rightarrow> nat list \<Rightarrow> error + 'fz frame" where
  "tree_policy P rnd w q =
     (case node_at (var_v0 w) q of
        None \<Rightarrow> Inl Undefined_behaviour
      | Some n0 \<Rightarrow>
          if is_terminal (s_node n0) then Inr (w\<lparr>var_v := n0\<rparr>)
          else if is_fully_expanded n0 then
            (case get_best_uct_child P rnd w q of
               Inl e \<Rightarrow> Inl e
             | Inr (c, w') \<Rightarrow> tree_policy P rnd w' c)
          else
            (case create_new_child P rnd w q of
               Inl e \<Rightarrow> Inl e
             | Inr w' \<Rightarrow>
                 (case node_at (var_v0 w') q of
                    None \<Rightarrow> Inl Undefined_behaviour
                  | Some n1 \<Rightarrow>
                      (case get_last_child n1 of
                         Inl e \<Rightarrow> Inl e
                       | Inr c \<Rightarrow> Inr (w'\<lparr>var_v := c\<rparr>)))))"
  by pat_completeness auto
termination
proof (relation "measure (\<lambda>(P, rnd, w, q).
          case node_at (var_v0 w) q of None \<Rightarrow> 0 | Some n \<Rightarrow> size n)", goal_cases)
  case 1
  show ?case by simp
next
  case (2 P rnd w q n0 x c w')
  from 2 obtain i where i: "i < length (children n0)" "c = q @ [i]" "var_v0 w' = var_v0 w"
    by (auto simp: get_best_uct_child_def rand_element_def rand_indice_def at_vec_def
             split: sum.splits if_splits prod.splits)
  have app: "node_at t (q @ [i]) = (case node_at t q of None \<Rightarrow> None | Some m \<Rightarrow> node_at m [i])"
    for t
    by (induction q arbitrary: t) auto
  have "children n0 ! i \<in> set (children n0)"
    using i(1) by simp
  then have "size (children n0 ! i) < size n0"
    by (cases n0) (auto simp: less_Suc_eq_le size_list_estimation')
  then show ?case
    using 2(1) i by (simp add: app)
qed

declare tree_policy.simps [simp del]

text \<open>
  The loop of \<^verbatim>\<open>default_policy\<close>, from step \<open>t\<close> on. \<open>reward\<close> is the value of the caller's
  variable behind the reference, to which the loop adds.
\<close>

function default_policy_loop ::
  "'fz b03_uct_pilot \<Rightarrow> (nat \<Rightarrow> nat) \<Rightarrow> 'fz frame \<Rightarrow> beeler_glider_command list \<Rightarrow> nat
     \<Rightarrow> beeler_glider_state \<Rightarrow> real \<Rightarrow> error + (real \<times> 'fz frame)" where
  "default_policy_loop P rnd w actions t s_t reward =
     (if t < unat (horizon P) then
        (case rand_element rnd w actions of
           Inl e \<Rightarrow> Inl e
         | Inr (a_t, w1) \<Rightarrow>
             (case get_transition_model P w1 s_t a_t of
                (s_tp, w2) \<Rightarrow>
                  if is_terminal s_tp then Inr (reward, w2)
                  else default_policy_loop P rnd w2 actions (Suc t) s_tp
                         (reward + df P ^ t * get_reward_model s_t a_t s_tp)))
      else Inr (reward, w))"
  by pat_completeness auto
termination
  by (relation "measure (\<lambda>(P, rnd, w, actions, t, s_t, reward). unat (horizon P) - t)") auto

declare default_policy_loop.simps [simp del]

definition default_policy ::
  "'fz b03_uct_pilot \<Rightarrow> (nat \<Rightarrow> nat) \<Rightarrow> 'fz frame \<Rightarrow> beeler_glider_state \<Rightarrow> real
     \<Rightarrow> error + (real \<times> 'fz frame)" where
  "default_policy P rnd w st reward =
     default_policy_loop P rnd w (get_expendable_actions P) 0 st reward"

text \<open>
  \<^verbatim>\<open>backup(v, reward)\<close> on the node behind the reference \<open>r\<close>. The recursion follows the
  parent pointers; \<open>None\<close> stands for a recursion that never ends.
\<close>

partial_function (option) backup ::
  "'fz b03_uct_pilot \<Rightarrow> 'fz frame \<Rightarrow> ref \<Rightarrow> real \<Rightarrow> (error + 'fz frame) option" where
  "backup P w r reward =
     (case deref w r of
        None \<Rightarrow> Some (Inl Undefined_behaviour)
      | Some vn \<Rightarrow>
          (let w1 = modify_ref (number_of_visits_update (\<lambda>n. n + 1)) r w;
               w2 = modify_ref
                      (average_reward_update (\<lambda>x. x + df P ^ unat (depth vn) * reward)) r w1
           in if 0 < depth vn then
                (case parent vn of
                   None \<Rightarrow> Some (Inl Undefined_behaviour)
                 | Some p \<Rightarrow> backup P w2 p reward)
              else Some (Inr w2)))"

definition get_best_action :: "(nat \<Rightarrow> nat) \<Rightarrow> 'fz frame \<Rightarrow> error + 'fz frame" where
  "get_best_action rnd w =
     (let scores = map average_reward (children (var_v0 w)) in
      case rand_element rnd w (sort_indices scores) of
        Inl e \<Rightarrow> Inl e
      | Inr (i, w') \<Rightarrow>
          (case at_vec (children (var_v0 w)) i of
             Inl e \<Rightarrow> Inl e
           | Inr vn \<Rightarrow> Inr (w'\<lparr>arg_a := incoming_action vn\<rparr>)))"

text \<open>
  The loop of \<^verbatim>\<open>operator()\<close>, from iteration \<open>i\<close> on. The local \<^verbatim>\<open>reward\<close> is declared
  without an initial value: \<open>uninit i\<close> is what it holds in iteration \<open>i\<close>.
\<close>

function simulations ::
  "'fz b03_uct_pilot \<Rightarrow> (nat \<Rightarrow> nat) \<Rightarrow> (nat \<Rightarrow> real) \<Rightarrow> 'fz frame \<Rightarrow> nat
     \<Rightarrow> (error + 'fz frame) option" where
  "simulations P rnd uninit w i =
     (if i < unat (computational_budget P) then
        (let w0 = w\<lparr>var_v := new_node_stateless (get_expendable_actions P) 0 0 0\<rparr>;
             reward = uninit i
         in case tree_policy P rnd w0 [] of
              Inl e \<Rightarrow> Some (Inl e)
            | Inr w1 \<Rightarrow>
                (case default_policy P rnd w1 (s_node (var_v w1)) reward of
                   Inl e \<Rightarrow> Some (Inl e)
                 | Inr (reward', w2) \<Rightarrow>
                     (case backup P w2 Local_v reward' of
                        None \<Rightarrow> None
                      | Some (Inl e) \<Rightarrow> Some (Inl e)
                      | Some (Inr w3) \<Rightarrow> simulations P rnd uninit w3 (Suc i))))
      else Some (Inr w))"
  by pat_completeness auto
termination
  by (relation "measure (\<lambda>(P, rnd, uninit, w, i). unat (computational_budget P) - i)") auto

declare simulations.simps [simp del]

text \<open>\<^verbatim>\<open>operator()(_s, _a)\<close>: the spec's \<open>select_action\<close>.\<close>

definition operator_call ::
  "'fz b03_uct_pilot \<Rightarrow> (nat \<Rightarrow> nat) \<Rightarrow> (nat \<Rightarrow> real) \<Rightarrow> 'fz frame \<Rightarrow> (error + 'fz frame) option" where
  "operator_call P rnd uninit w =
     (let s0 = arg_s w;
          w0 = w\<lparr>var_v0 := new_node s0 (get_expendable_actions P) 0 1 0\<rparr>
      in case simulations P rnd uninit w0 0 of
           None \<Rightarrow> None
         | Some (Inl e) \<Rightarrow> Some (Inl e)
         | Some (Inr w1) \<Rightarrow>
             (case get_best_action rnd w1 of
                Inl e \<Rightarrow> Some (Inl e)
              | Inr w2 \<Rightarrow> Some (Inr w2)))"

text \<open>\<^verbatim>\<open>out_of_range(_s, _a)\<close>, the policy for out-of-range situations.\<close>

definition out_of_range :: "'fz b03_uct_pilot \<Rightarrow> 'fz frame \<Rightarrow> 'fz frame" where
  "out_of_range P w =
     (let a1 = (arg_a w)\<lparr>dalpha := 0\<rparr>;
          a2 = a1\<lparr>dbeta := 0\<rparr>;
          a3 = (if sigma (arg_s w) < 0.4 then a2\<lparr>dsigma := angle_rate_magnitude P\<rparr>
                else a2\<lparr>dsigma := 0\<rparr>)
      in w\<lparr>arg_a := a3\<rparr>)"

text \<open>
  The first step of the stepper (\<^verbatim>\<open>euler_integrator::operator()\<close>), which applies the policy:
  beyond 1200 from the centre it calls \<^verbatim>\<open>out_of_range\<close>, otherwise \<^verbatim>\<open>operator()\<close>, on the
  state and the command of the simulated aircraft. \<^verbatim>\<open>get_distance_to_center\<close> is the method
  of \<^verbatim>\<open>beeler_glider\<close>, here on the state of that aircraft.
\<close>

definition get_distance_to_center :: "beeler_glider_state \<Rightarrow> real" where
  "get_distance_to_center st = sqrt (x_st st * x_st st + y_st st * y_st st)"

definition apply_policy ::
  "'fz b03_uct_pilot \<Rightarrow> (nat \<Rightarrow> nat) \<Rightarrow> (nat \<Rightarrow> real) \<Rightarrow> 'fz frame \<Rightarrow> (error + 'fz frame) option" where
  "apply_policy P rnd uninit w =
     (if get_distance_to_center (arg_s w) > 1200 then Some (Inr (out_of_range P w))
      else operator_call P rnd uninit w)"

section \<open>A concrete configuration\<close>

text \<open>
  A transition function that lowers the altitude by one unit per decision step, a pilot
  with horizon 3, budget 1 and discount factor 1/2, states at altitudes 5/2, 3/2, 1/2 and
  -1/2 with vertical speed 1, and a random source that always draws 0.
\<close>

definition ex_tf ::
  "beeler_glider \<Rightarrow> unit \<Rightarrow> real \<Rightarrow> real \<Rightarrow> real \<Rightarrow> beeler_glider \<times> unit \<times> real" where
  "ex_tf a f t tsw dt = (a\<lparr>s_ac := (s_ac a)\<lparr>z_st := z_st (s_ac a) - 1\<rparr>\<rparr>, f, t + tsw)"

definition ex_pilot :: "unit b03_uct_pilot" where
  "ex_pilot = \<lparr>transition_function = ex_tf, angle_rate_magnitude = 1/100, uct_parameter = 0,
     time_step_width = 1/10, sub_time_step_width = 1/10, df = 1/2, horizon = 3,
     computational_budget = 1\<rparr>"

definition ex_state :: beeler_glider_state where
  "ex_state = default_state\<lparr>z_st := 3/2, zdot := 1\<rparr>"

definition ex_high_state :: beeler_glider_state where
  "ex_high_state = default_state\<lparr>z_st := 5/2, zdot := 1\<rparr>"

definition ex_low_state :: beeler_glider_state where
  "ex_low_state = default_state\<lparr>z_st := 1/2, zdot := 1\<rparr>"

definition ex_terminal_state :: beeler_glider_state where
  "ex_terminal_state = default_state\<lparr>z_st := - 1/2, zdot := 1\<rparr>"

definition ex_far_state :: beeler_glider_state where
  "ex_far_state = default_state\<lparr>x_st := 1300, z_st := - 1/2\<rparr>"

definition ex_ac :: beeler_glider where
  "ex_ac = \<lparr>s_ac = default_state, u_ac = default_command, mass = 1.36, wingspan = 1.524,
     aspect_ratio = 16\<rparr>"

definition ex_frame :: "unit frame" where
  "ex_frame = \<lparr>ac = ex_ac, fz = (), arg_s = ex_state, arg_a = default_command,
     var_v0 = new_node_stateless [] 0 0 0, var_v = new_node_stateless [] 0 0 0,
     rand_calls = 0\<rparr>"

definition ex_child :: b03_node where
  "ex_child = B03_node ex_state \<lparr>dalpha = 0, dbeta = 0, dsigma = 1/100\<rparr>
     (get_expendable_actions ex_pilot) 0 1 1 (Some (In_v0 [])) []"

definition ex_frame_after :: "unit frame" where
  "ex_frame_after =
     \<lparr>ac = ex_ac\<lparr>s_ac := ex_terminal_state, u_ac := \<lparr>dalpha = 0, dbeta = 0, dsigma = 1/100\<rparr>\<rparr>,
      fz = (), arg_s = ex_high_state, arg_a = default_command,
      var_v0 = B03_node ex_high_state default_command
                 [\<lparr>dalpha = 0, dbeta = 0, dsigma = 0\<rparr>,
                  \<lparr>dalpha = 0, dbeta = 0, dsigma = - (1/100)\<rparr>]
                 1 2 0 None [ex_child],
      var_v = B03_node ex_state \<lparr>dalpha = 0, dbeta = 0, dsigma = 1/100\<rparr>
                 (get_expendable_actions ex_pilot) (1/2) 2 1 (Some (In_v0 [])) [],
      rand_calls = 3\<rparr>"

definition ex_one :: "nat \<Rightarrow> nat" where
  "ex_one k = 1"

definition ex_sel_pilot :: "unit b03_uct_pilot" where
  "ex_sel_pilot = ex_pilot\<lparr>uct_parameter := 1\<rparr>"

definition ex_sel_leaf :: "32 word \<Rightarrow> real \<Rightarrow> b03_node" where
  "ex_sel_leaf n x = B03_node ex_terminal_state \<lparr>dalpha = 0, dbeta = 0, dsigma = x\<rparr>
     (get_expendable_actions ex_pilot) 0 n 1 (Some (In_v0 [])) []"

definition ex_sel_frame :: "unit frame" where
  "ex_sel_frame = ex_frame\<lparr>var_v0 :=
     B03_node ex_high_state default_command [] 0 7 0 None
       [ex_sel_leaf 4 (1/100), ex_sel_leaf 1 0, ex_sel_leaf 1 (- (1/100))]\<rparr>"

definition ex_score_lo :: real where
  "ex_score_lo = 2 * sqrt (2 * ln 7 / 4)"

definition ex_score_hi :: real where
  "ex_score_hi = 2 * sqrt (2 * ln 7)"

definition ex_rnd :: "nat \<Rightarrow> nat" where
  "ex_rnd k = 0"

definition ex_uninit :: "nat \<Rightarrow> real" where
  "ex_uninit i = 0"

section \<open>The rollout\<close>

lemma default_policy_loop_frame:
  "actions \<noteq> [] \<Longrightarrow> \<exists>r w'. default_policy_loop P rnd w actions t s_t reward = Inr (r, w')
      \<and> var_v0 w' = var_v0 w \<and> var_v w' = var_v w \<and> arg_s w' = arg_s w \<and> arg_a w' = arg_a w"
proof (induction P rnd w actions t s_t reward rule: default_policy_loop.induct)
  case (1 P rnd w actions t s_t reward)
  show ?case
  proof (cases "t < unat (horizon P)")
    case False
    then show ?thesis by (subst default_policy_loop.simps) simp
  next
    case True
    obtain a_t w1 where r: "rand_element rnd w actions = Inr (a_t, w1)"
      and w1: "w1 = w\<lparr>rand_calls := Suc (rand_calls w)\<rparr>"
      using 1(2) by (auto simp: rand_element_def rand_indice_def)
    obtain s_tp w2 where g: "get_transition_model P w1 s_t a_t = (s_tp, w2)"
      by (cases "get_transition_model P w1 s_t a_t")
    have fr: "var_v0 w2 = var_v0 w \<and> var_v w2 = var_v w \<and> arg_s w2 = arg_s w \<and> arg_a w2 = arg_a w"
      using g w1 by (auto simp: get_transition_model_def Let_def split: prod.splits)
    show ?thesis
    proof (cases "is_terminal s_tp")
      case True
      then show ?thesis using \<open>t < unat (horizon P)\<close> r g fr
        by (subst default_policy_loop.simps) simp
    next
      case False
      from 1(1)[OF \<open>t < unat (horizon P)\<close> r refl g[symmetric] False 1(2)]
      show ?thesis using \<open>t < unat (horizon P)\<close> r g fr False
        by (subst default_policy_loop.simps) auto
    qed
  qed
qed


lemma backup_local_root_depth:
  "depth (var_v w) = 0 \<Longrightarrow>
   \<exists>w'. backup P w Local_v reward = Some (Inr w') \<and> var_v0 w' = var_v0 w
      \<and> arg_s w' = arg_s w \<and> arg_a w' = arg_a w \<and> ac w' = ac w \<and> fz w' = fz w
      \<and> rand_calls w' = rand_calls w"
  by (subst backup.simps) (simp add: deref_def modify_ref_def Let_def)

lemma simulations_terminal_root:
  assumes "is_terminal (s_node (var_v0 w))" "depth (var_v0 w) = 0"
  shows "\<exists>w'. simulations P rnd uninit w i = Some (Inr w') \<and> var_v0 w' = var_v0 w
           \<and> arg_s w' = arg_s w \<and> arg_a w' = arg_a w"
  using assms
proof (induction "unat (computational_budget P) - i" arbitrary: i w)
  case 0
  then show ?case by (subst simulations.simps) simp
next
  case (Suc n)
  then have lt: "i < unat (computational_budget P)" by simp
  define w0 where "w0 = w\<lparr>var_v := new_node_stateless (get_expendable_actions P) 0 0 0\<rparr>"
  define w1 where "w1 = w0\<lparr>var_v := var_v0 w\<rparr>"
  have tp: "tree_policy P rnd w0 [] = Inr w1"
    using Suc.prems by (subst tree_policy.simps) (simp add: w0_def w1_def)
  obtain r w2 where dp: "default_policy P rnd w1 (s_node (var_v w1)) (uninit i) = Inr (r, w2)"
    and f2: "var_v0 w2 = var_v0 w1" "var_v w2 = var_v w1" "arg_s w2 = arg_s w1" "arg_a w2 = arg_a w1"
    using default_policy_loop_frame[of "get_expendable_actions P" P rnd w1 0 "s_node (var_v w1)" "uninit i"]
    by (auto simp: default_policy_def get_expendable_actions_def)
  have "depth (var_v w2) = 0" using f2 Suc.prems by (simp add: w1_def)
  from backup_local_root_depth[OF this, of P r]
  obtain w3 where bk: "backup P w2 Local_v r = Some (Inr w3)" and f3: "var_v0 w3 = var_v0 w2"
     "arg_s w3 = arg_s w2" "arg_a w3 = arg_a w2" by blast
  have eq: "var_v0 w3 = var_v0 w" "arg_s w3 = arg_s w" "arg_a w3 = arg_a w"
    using f2 f3 by (simp_all add: w1_def w0_def)
  have "unat (computational_budget P) - Suc i = n" using Suc.hyps(2) by simp
  from Suc.hyps(1)[OF this[symmetric], of w3] Suc.prems eq
  obtain w' where "simulations P rnd uninit w3 (Suc i) = Some (Inr w')" "var_v0 w' = var_v0 w"
    "arg_s w' = arg_s w" "arg_a w' = arg_a w" by auto
  then show ?case using lt tp dp bk
    by (subst simulations.simps) (simp add: w0_def[symmetric] Let_def)
qed

lemma get_best_action_no_children:
  "children (var_v0 w) = [] \<Longrightarrow> get_best_action rnd w = Inl Undefined_behaviour"
  by (simp add: get_best_action_def sort_indices_def rand_element_def rand_indice_def)

lemma operator_call_terminal_root:
  assumes "is_terminal (arg_s w)"
  shows "operator_call P rnd uninit w = Some (Inl Undefined_behaviour)"
proof -
  define w0 where "w0 = w\<lparr>var_v0 := new_node (arg_s w) (get_expendable_actions P) 0 1 0\<rparr>"
  have "is_terminal (s_node (var_v0 w0))" "depth (var_v0 w0) = 0"
    using assms by (simp_all add: w0_def new_node_def)
  from simulations_terminal_root[OF this, of P rnd uninit 0]
  obtain w' where s: "simulations P rnd uninit w0 0 = Some (Inr w')" "var_v0 w' = var_v0 w0"
    by blast
  have "children (var_v0 w') = []" using s(2) by (simp add: w0_def new_node_def)
  then show ?thesis using s(1) get_best_action_no_children[of w' rnd]
    by (simp add: operator_call_def Let_def w0_def[symmetric])
qed

lemma operator_call_zero_budget:
  assumes "computational_budget P = 0"
  shows "operator_call P rnd uninit w = Some (Inl Undefined_behaviour)"
proof -
  define w0 where "w0 = w\<lparr>var_v0 := new_node (arg_s w) (get_expendable_actions P) 0 1 0\<rparr>"
  have s: "simulations P rnd uninit w0 0 = Some (Inr w0)"
    using assms by (subst simulations.simps) simp
  have "children (var_v0 w0) = []" by (simp add: w0_def new_node_def)
  then show ?thesis using s get_best_action_no_children[of w0 rnd]
    by (simp add: operator_call_def Let_def w0_def[symmetric])
qed

section \<open>The tree seen through its paths\<close>

text \<open>
  The attributes of a node apart from its children, and the number of children. The map
  from paths to these labels is the view in which the invariants of the tree are stated.
\<close>

record label =
  l_s :: beeler_glider_state
  l_incoming :: beeler_glider_command
  l_exp :: "beeler_glider_command list"
  l_avg :: real
  l_visits :: "32 word"
  l_depth :: "32 word"
  l_parent :: "ref option"
  l_nchildren :: nat

definition label :: "b03_node \<Rightarrow> label" where
  "label n = \<lparr>l_s = s_node n, l_incoming = incoming_action n, l_exp = expendable_actions n,
     l_avg = average_reward n, l_visits = number_of_visits n, l_depth = depth n,
     l_parent = parent n, l_nchildren = length (children n)\<rparr>"

definition lab :: "b03_node \<Rightarrow> nat list \<Rightarrow> label option" where
  "lab tr q = map_option label (node_at tr q)"

lemma children_update_sel [simp]:
  "children (children_update f n) = f (children n)"
  "s_node (children_update f n) = s_node n"
  "incoming_action (children_update f n) = incoming_action n"
  "expendable_actions (children_update f n) = expendable_actions n"
  "average_reward (children_update f n) = average_reward n"
  "number_of_visits (children_update f n) = number_of_visits n"
  "depth (children_update f n) = depth n"
  "parent (children_update f n) = parent n"
  by (cases n; simp)+

lemma expendable_actions_update_sel [simp]:
  "children (expendable_actions_update f n) = children n"
  "s_node (expendable_actions_update f n) = s_node n"
  "incoming_action (expendable_actions_update f n) = incoming_action n"
  "expendable_actions (expendable_actions_update f n) = f (expendable_actions n)"
  "average_reward (expendable_actions_update f n) = average_reward n"
  "number_of_visits (expendable_actions_update f n) = number_of_visits n"
  "depth (expendable_actions_update f n) = depth n"
  "parent (expendable_actions_update f n) = parent n"
  by (cases n; simp)+

lemma number_of_visits_update_sel [simp]:
  "children (number_of_visits_update f n) = children n"
  "s_node (number_of_visits_update f n) = s_node n"
  "incoming_action (number_of_visits_update f n) = incoming_action n"
  "expendable_actions (number_of_visits_update f n) = expendable_actions n"
  "average_reward (number_of_visits_update f n) = average_reward n"
  "number_of_visits (number_of_visits_update f n) = f (number_of_visits n)"
  "depth (number_of_visits_update f n) = depth n"
  "parent (number_of_visits_update f n) = parent n"
  by (cases n; simp)+

lemma average_reward_update_sel [simp]:
  "children (average_reward_update f n) = children n"
  "s_node (average_reward_update f n) = s_node n"
  "incoming_action (average_reward_update f n) = incoming_action n"
  "expendable_actions (average_reward_update f n) = expendable_actions n"
  "average_reward (average_reward_update f n) = f (average_reward n)"
  "number_of_visits (average_reward_update f n) = number_of_visits n"
  "depth (average_reward_update f n) = depth n"
  "parent (average_reward_update f n) = parent n"
  by (cases n; simp)+

lemma node_at_append:
  "node_at t (p @ q) = (case node_at t p of None \<Rightarrow> None | Some m \<Rightarrow> node_at m q)"
  by (induction p arbitrary: t) auto

lemma node_at_modify_at_same:
  "node_at tr p = Some n \<Longrightarrow> node_at (modify_at f p tr) p = Some (f n)"
  by (induction p arbitrary: tr) (auto split: if_splits)

lemma modify_at_twice:
  "node_at tr p = Some n \<Longrightarrow>
   modify_at g p (modify_at f p tr) = modify_at (\<lambda>m. g (f m)) p tr"
proof (induction p arbitrary: tr)
  case Nil
  then show ?case by simp
next
  case (Cons j p)
  then show ?case by (cases tr) (auto split: if_splits)
qed

lemma modify_at_agree:
  "node_at tr p = Some n \<Longrightarrow> f n = g n \<Longrightarrow> modify_at f p tr = modify_at g p tr"
proof (induction p arbitrary: tr)
  case Nil
  then show ?case by simp
next
  case (Cons j p)
  then show ?case by (cases tr) (auto split: if_splits)
qed

lemma lab_modify_keep:
  "node_at tr p = Some n \<Longrightarrow> children (f n) = children n \<Longrightarrow>
   lab (modify_at f p tr) q = (if q = p then Some (label (f n)) else lab tr q)"
proof (induction p arbitrary: tr q)
  case Nil
  then show ?case by (cases q) (auto simp: lab_def)
next
  case (Cons j p)
  then have j: "j < length (children tr)" and n: "node_at (children tr ! j) p = Some n"
    by (auto split: if_splits)
  show ?case
  proof (cases q)
    case Nil
    then show ?thesis using j by (simp add: lab_def label_def)
  next
    case (Cons k q')
    show ?thesis
    proof (cases "k = j")
      case True
      then show ?thesis
        using Cons.IH[OF n Cons.prems(2), of q'] j Cons by (simp add: lab_def)
    next
      case False
      then show ?thesis using j Cons by (simp add: lab_def)
    qed
  qed
qed

lemma lab_modify_push:
  "node_at tr p = Some n \<Longrightarrow> children c = [] \<Longrightarrow>
   lab (modify_at (children_update (\<lambda>cs. cs @ [c])) p tr) q =
     (if q = p then Some ((label n)\<lparr>l_nchildren := Suc (length (children n))\<rparr>)
      else if q = p @ [length (children n)] then Some (label c)
      else lab tr q)"
proof (induction p arbitrary: tr q)
  case Nil
  show ?case
  proof (cases q)
    case Nil
    then show ?thesis using Nil.prems by (simp add: lab_def label_def)
  next
    case (Cons k q')
    then show ?thesis using Nil.prems
      by (cases q') (auto simp: lab_def nth_append)
  qed
next
  case (Cons j p)
  then have j: "j < length (children tr)" and n: "node_at (children tr ! j) p = Some n"
    by (auto split: if_splits)
  show ?case
  proof (cases q)
    case Nil
    then show ?thesis using j by (simp add: lab_def label_def)
  next
    case (Cons k q')
    show ?thesis
    proof (cases "k = j")
      case True
      then show ?thesis
        using Cons.IH[OF n Cons.prems(2), of q'] j Cons by (simp add: lab_def)
    next
      case False
      then show ?thesis using j Cons by (simp add: lab_def)
    qed
  qed
qed

lemma lab_Some_iff: "lab tr q = Some l \<longleftrightarrow> (\<exists>m. node_at tr q = Some m \<and> l = label m)"
  by (auto simp: lab_def)

lemma sort_indices_nonempty:
  assumes "scores \<noteq> []"
  shows "sort_indices scores \<noteq> []"
proof -
  have "Max (set scores) \<in> set scores" using assms by simp
  then obtain i where i: "i < length scores" "scores ! i = Max (set scores)"
    by (auto simp: in_set_conv_nth)
  then have "i \<in> set (sort_indices scores)"
    by (auto simp: sort_indices_def)
  then show ?thesis by auto
qed

lemma sort_indices_elem:
  "i \<in> set (sort_indices scores) \<Longrightarrow> i < length scores \<and> (\<forall>j<length scores. scores ! j \<le> scores ! i)"
  by (auto simp: sort_indices_def)

definition node_ok :: "nat \<Rightarrow> nat list \<Rightarrow> label \<Rightarrow> bool" where
  "node_ok b q l =
     (unat (l_depth l) = length q \<and> length (l_exp l) + l_nchildren l = 3
      \<and> (q \<noteq> [] \<longrightarrow> l_parent l = Some (In_v0 (butlast q))
            \<and> 1 \<le> unat (l_visits l) \<and> unat (l_visits l) \<le> b))"

definition tree_inv :: "nat \<Rightarrow> b03_node \<Rightarrow> bool" where
  "tree_inv i tr = (\<forall>q l. lab tr q = Some l \<longrightarrow> length q \<le> i \<and> node_ok i q l)"

definition mid_inv :: "nat \<Rightarrow> b03_node \<Rightarrow> nat list \<Rightarrow> bool" where
  "mid_inv i tr a =
     (\<forall>q l. lab tr q = Some l \<longrightarrow>
        length q \<le> Suc i \<and> node_ok (if prefix q a then i else Suc i) q l)"

lemma tree_invD:
  "tree_inv i tr \<Longrightarrow> lab tr q = Some l \<Longrightarrow> length q \<le> i \<and> node_ok i q l"
  by (simp add: tree_inv_def)

lemma mid_invD:
  "mid_inv i tr a \<Longrightarrow> lab tr q = Some l \<Longrightarrow>
     length q \<le> Suc i \<and> node_ok (if prefix q a then i else Suc i) q l"
  by (simp add: mid_inv_def)

lemma node_ok_mono: "node_ok b q l \<Longrightarrow> b \<le> b' \<Longrightarrow> node_ok b' q l"
  by (auto simp: node_ok_def)

lemma tree_inv_mid_inv: "tree_inv i tr \<Longrightarrow> mid_inv i tr a"
  unfolding tree_inv_def mid_inv_def
proof (intro allI impI)
  fix q l assume h: "\<forall>q l. lab tr q = Some l \<longrightarrow> length q \<le> i \<and> node_ok i q l"
    and l: "lab tr q = Some l"
  from h l have "length q \<le> i" "node_ok i q l" by blast+
  then show "length q \<le> Suc i \<and> node_ok (if prefix q a then i else Suc i) q l"
    using node_ok_mono[of i q l "Suc i"] by simp
qed

lemma mid_inv_tree_inv: "mid_inv i tr a \<Longrightarrow> tree_inv (Suc i) tr"
  unfolding tree_inv_def mid_inv_def
proof (intro allI impI)
  fix q l assume h: "\<forall>q l. lab tr q = Some l \<longrightarrow>
        length q \<le> Suc i \<and> node_ok (if prefix q a then i else Suc i) q l"
    and l: "lab tr q = Some l"
  from h l have "length q \<le> Suc i" "node_ok (if prefix q a then i else Suc i) q l" by blast+
  then show "length q \<le> Suc i \<and> node_ok (Suc i) q l"
    using node_ok_mono[of i q l "Suc i"] by (simp split: if_splits)
qed

lemma unat_succ_bound:
  fixes x :: "32 word"
  assumes "unat x \<le> i" "Suc i < 2 ^ 32"
  shows "unat (x + 1) = Suc (unat x)"
proof -
  have "unat x + 1 < 2 ^ LENGTH(32)" using assms by simp
  then show ?thesis by (simp add: unat_add_lem[THEN iffD1])
qed

definition bump :: "'fz b03_uct_pilot \<Rightarrow> real \<Rightarrow> b03_node \<Rightarrow> b03_node" where
  "bump P reward m =
     average_reward_update (\<lambda>x. x + df P ^ unat (depth m) * reward)
       (number_of_visits_update (\<lambda>n. n + 1) m)"

lemma backup_in_tree_step:
  assumes "node_at (var_v0 w) a = Some m"
  shows "backup P w (In_v0 a) reward =
     (let w2 = w\<lparr>var_v0 := modify_at (bump P reward) a (var_v0 w)\<rparr> in
      if 0 < depth m then
        (case parent m of None \<Rightarrow> Some (Inl Undefined_behaviour)
         | Some p \<Rightarrow> backup P w2 p reward)
      else Some (Inr w2))"
proof -
  have "modify_at (\<lambda>ma. average_reward_update (\<lambda>x. x + df P ^ unat (depth m) * reward)
                        (number_of_visits_update (\<lambda>n. n + 1) ma)) a (var_v0 w)
        = modify_at (bump P reward) a (var_v0 w)"
    by (rule modify_at_agree[OF assms]) (simp add: bump_def)
  then show ?thesis
    using assms
    by (subst backup.simps)
       (simp add: deref_def modify_ref_def Let_def modify_at_twice split: option.splits)
qed

lemma backup_in_tree_ok:
  assumes "mid_inv i (var_v0 w) a" "Suc i < 2 ^ 32" "lab (var_v0 w) a \<noteq> None"
  shows "\<exists>w'. backup P w (In_v0 a) reward = Some (Inr w') \<and> tree_inv (Suc i) (var_v0 w')
        \<and> (\<exists>l l'. lab (var_v0 w) [] = Some l \<and> lab (var_v0 w') [] = Some l'
              \<and> l_visits l' = l_visits l + 1 \<and> l_s l' = l_s l \<and> l_depth l' = l_depth l
              \<and> l_nchildren l' = l_nchildren l)
        \<and> arg_s w' = arg_s w \<and> arg_a w' = arg_a w \<and> ac w' = ac w \<and> fz w' = fz w
        \<and> rand_calls w' = rand_calls w \<and> var_v w' = var_v w"
  using assms
proof (induction a arbitrary: w rule: rev_induct)
  case Nil
  then obtain m where m: "node_at (var_v0 w) [] = Some m" by simp
  have rt: "node_ok (if prefix [] [] then i else Suc i) [] (label m)"
    using mid_invD[OF Nil.prems(1), of "[]" "label m"] m by (simp add: lab_def)
  then have d: "depth m = 0"
    by (simp add: node_ok_def label_def unat_eq_0)
  let ?w2 = "w\<lparr>var_v0 := modify_at (bump P reward) [] (var_v0 w)\<rparr>"
  have bk: "backup P w (In_v0 []) reward = Some (Inr ?w2)"
    using backup_in_tree_step[OF m, of P reward] d by simp
  have lb: "lab (var_v0 ?w2) q = (if q = [] then Some (label (bump P reward m)) else lab (var_v0 w) q)" for q
    using lab_modify_keep[OF m, of "bump P reward" q] by (simp add: bump_def)
  have "tree_inv (Suc i) (var_v0 ?w2)"
    unfolding tree_inv_def
  proof (intro allI impI)
    fix q l assume ql: "lab (var_v0 ?w2) q = Some l"
    show "length q \<le> Suc i \<and> node_ok (Suc i) q l"
    proof (cases "q = []")
      case True
      then have l: "l = label (bump P reward m)" using ql lb[of q] by simp
      show ?thesis using True rt by (simp add: l node_ok_def label_def bump_def)
    next
      case False
      then have "lab (var_v0 w) q = Some l" using ql lb[of q] by simp
      from mid_invD[OF Nil.prems(1) this] show ?thesis
        using node_ok_mono[of i q l "Suc i"] by (simp split: if_splits)
    qed
  qed
  then show ?case using bk lb[of "[]"] m
    by (auto simp: lab_def label_def bump_def)
next
  case (snoc k a)
  from snoc.prems(3) obtain m where m: "node_at (var_v0 w) (a @ [k]) = Some m"
    by (auto simp: lab_def)
  then obtain pm where pm: "node_at (var_v0 w) a = Some pm"
    by (auto simp: node_at_append split: option.splits)
  have lm: "lab (var_v0 w) (a @ [k]) = Some (label m)" using m by (simp add: lab_def)
  have ok: "node_ok i (a @ [k]) (label m)" and len: "length (a @ [k]) \<le> Suc i"
    using mid_invD[OF snoc.prems(1) lm] by simp_all
  then have d: "0 < depth m" and par: "parent m = Some (In_v0 a)"
    and vis: "unat (number_of_visits m) \<le> i"
    by (auto simp: node_ok_def label_def word_greater_zero_iff)
  let ?w2 = "w\<lparr>var_v0 := modify_at (bump P reward) (a @ [k]) (var_v0 w)\<rparr>"
  have bk: "backup P w (In_v0 (a @ [k])) reward = backup P ?w2 (In_v0 a) reward"
    using backup_in_tree_step[OF m, of P reward] d par by simp
  have lb: "lab (var_v0 ?w2) q = (if q = a @ [k] then Some (label (bump P reward m)) else lab (var_v0 w) q)" for q
    using lab_modify_keep[OF m, of "bump P reward" q] by (simp add: bump_def)
  have mi: "mid_inv i (var_v0 ?w2) a"
    unfolding mid_inv_def
  proof (intro allI impI)
    fix q l assume ql: "lab (var_v0 ?w2) q = Some l"
    show "length q \<le> Suc i \<and> node_ok (if prefix q a then i else Suc i) q l"
    proof (cases "q = a @ [k]")
      case True
      then have l: "l = label (bump P reward m)" using ql lb[of q] by simp
      have "length q \<le> Suc i" using len True by simp
      moreover have "\<not> prefix q a" using True by (auto simp: prefix_def)
      moreover have "node_ok (Suc i) q l"
        using ok vis unat_succ_bound[OF vis snoc.prems(2)] True
        by (auto simp: node_ok_def l label_def bump_def)
      ultimately show ?thesis by simp
    next
      case False
      then have "lab (var_v0 w) q = Some l" using ql lb[of q] by simp
      from mid_invD[OF snoc.prems(1) this]
      have "length q \<le> Suc i" "node_ok (if prefix q (a @ [k]) then i else Suc i) q l"
        by simp_all
      moreover have "prefix q a \<Longrightarrow> prefix q (a @ [k])" by (auto simp: prefix_def)
      ultimately show ?thesis
        using node_ok_mono[of i q l "Suc i"] by (auto split: if_splits)
    qed
  qed
  have ex: "lab (var_v0 ?w2) a \<noteq> None" using lb[of a] pm by (auto simp: lab_def)
  from snoc.IH[OF mi snoc.prems(2) ex]
  obtain w' where w': "backup P ?w2 (In_v0 a) reward = Some (Inr w')" "tree_inv (Suc i) (var_v0 w')"
     "\<exists>l l'. lab (var_v0 ?w2) [] = Some l \<and> lab (var_v0 w') [] = Some l'
              \<and> l_visits l' = l_visits l + 1 \<and> l_s l' = l_s l \<and> l_depth l' = l_depth l
              \<and> l_nchildren l' = l_nchildren l"
     "arg_s w' = arg_s ?w2 \<and> arg_a w' = arg_a ?w2 \<and> ac w' = ac ?w2 \<and> fz w' = fz ?w2
        \<and> rand_calls w' = rand_calls ?w2 \<and> var_v w' = var_v ?w2"
    by blast
  show ?case using w' bk lb[of "[]"] by auto
qed

lemma get_uct_score_ok:
  "number_of_visits c \<noteq> 0 \<Longrightarrow> parent c = Some p \<Longrightarrow> deref w p = Some pn \<Longrightarrow>
   \<exists>x. get_uct_score P w c = Inr x"
  by (simp add: get_uct_score_def Let_def unsigned_eq_0_iff)

lemma uct_scores_ok:
  "\<forall>c \<in> set cs. \<exists>x. get_uct_score P w c = Inr x \<Longrightarrow>
   \<exists>scores. uct_scores P w cs = Inr scores \<and> length scores = length cs"
  by (induction cs) auto

lemma node_at_child:
  "node_at tr q = Some n \<Longrightarrow> k < length (children n) \<Longrightarrow>
   node_at tr (q @ [k]) = Some (children n ! k)"
  by (simp add: node_at_append)

lemma get_best_uct_child_ok:
  assumes inv: "tree_inv i (var_v0 w)" and n: "node_at (var_v0 w) q = Some n"
    and full: "expendable_actions n = []"
  shows "\<exists>k. k < length (children n)
           \<and> get_best_uct_child P rnd w q = Inr (q @ [k], w\<lparr>rand_calls := Suc (rand_calls w)\<rparr>)"
proof -
  have ln: "lab (var_v0 w) q = Some (label n)" using n by (simp add: lab_def)
  from tree_invD[OF inv ln] full have len: "length (children n) = 3"
    by (simp add: node_ok_def label_def)
  have "\<forall>c \<in> set (children n). \<exists>x. get_uct_score P w c = Inr x"
  proof
    fix c assume "c \<in> set (children n)"
    then obtain k where k: "k < length (children n)" "c = children n ! k"
      by (auto simp: in_set_conv_nth)
    have "lab (var_v0 w) (q @ [k]) = Some (label c)"
      using node_at_child[OF n k(1)] k(2) by (simp add: lab_def)
    from tree_invD[OF inv this]
    have "parent c = Some (In_v0 q)" "1 \<le> unat (number_of_visits c)"
      by (simp_all add: node_ok_def label_def)
    moreover from this(2) have "number_of_visits c \<noteq> 0" by auto
    moreover have "deref w (In_v0 q) = Some n" using n by (simp add: deref_def)
    ultimately show "\<exists>x. get_uct_score P w c = Inr x" by (rule_tac get_uct_score_ok)
  qed
  from uct_scores_ok[OF this] obtain scores where
    sc: "uct_scores P w (children n) = Inr scores" "length scores = length (children n)"
    by blast
  have "scores \<noteq> []" using sc(2) len by (cases scores) simp_all
  then have ne: "sort_indices scores \<noteq> []" by (rule sort_indices_nonempty)
  define k where "k = sort_indices scores ! (rnd (rand_calls w) mod length (sort_indices scores))"
  have "k \<in> set (sort_indices scores)" using ne by (simp add: k_def)
  then have kl: "k < length (children n)" using sort_indices_elem[of k scores] sc(2) by simp
  have "get_best_uct_child P rnd w q = Inr (q @ [k], w\<lparr>rand_calls := Suc (rand_calls w)\<rparr>)"
    using n sc ne kl
    by (simp add: get_best_uct_child_def rand_element_def rand_indice_def at_vec_def k_def)
  then show ?thesis using kl by blast
qed

lemma get_transition_model_frame:
  "get_transition_model P w st a = (st', w') \<Longrightarrow>
   var_v0 w' = var_v0 w \<and> var_v w' = var_v w \<and> arg_s w' = arg_s w \<and> arg_a w' = arg_a w
   \<and> rand_calls w' = rand_calls w"
  by (auto simp: get_transition_model_def Let_def split: prod.splits)

lemma create_new_child_ok:
  assumes n: "node_at (var_v0 w) q = Some n" and ne: "expendable_actions n \<noteq> []"
  shows "\<exists>w' c k. create_new_child P rnd w q = Inr w' \<and> k < length (expendable_actions n)
      \<and> (\<forall>q'. lab (var_v0 w') q' =
            (if q' = q then Some ((label n)\<lparr>l_exp := erase (expendable_actions n) k,
                                   l_nchildren := Suc (length (children n))\<rparr>)
             else if q' = q @ [length (children n)] then Some (label c)
             else lab (var_v0 w) q'))
      \<and> (\<exists>n1. node_at (var_v0 w') q = Some n1 \<and> children n1 = children n @ [c])
      \<and> children c = [] \<and> number_of_visits c = 1 \<and> depth c = depth n + 1
      \<and> parent c = Some (In_v0 q) \<and> expendable_actions c = get_expendable_actions P
      \<and> average_reward c = 0
      \<and> arg_s w' = arg_s w \<and> arg_a w' = arg_a w \<and> var_v w' = var_v w"
proof -
  define k where "k = rnd (rand_calls w) mod length (expendable_actions n)"
  define w1 where "w1 = w\<lparr>rand_calls := Suc (rand_calls w)\<rparr>"
  define a where "a = expendable_actions n ! k"
  define f where "f = expendable_actions_update (\<lambda>e. erase e k)"
  define w2 where "w2 = modify_ref f (In_v0 q) w1"
  obtain s' w3 where g: "get_transition_model P w2 (s_node n) a = (s', w3)"
    by (cases "get_transition_model P w2 (s_node n) a")
  define c where "c = parent_update (\<lambda>_. Some (In_v0 q)) (incoming_action_update (\<lambda>_. a)
      (new_node s' (get_expendable_actions P) 0 1 (depth n + 1)))"
  define w4 where "w4 = modify_ref (children_update (\<lambda>cs. cs @ [c])) (In_v0 q) w3"
  have kl: "k < length (expendable_actions n)" using ne by (simp add: k_def)
  have cnc: "create_new_child P rnd w q = Inr w4"
    using n ne kl g
    by (simp add: create_new_child_def rand_indice_def at_vec_def Let_def k_def[symmetric]
          w1_def[symmetric] a_def[symmetric] f_def[symmetric] w2_def[symmetric]
          c_def[symmetric] w4_def[symmetric])
  have fr: "var_v0 w3 = var_v0 w2" "var_v w3 = var_v w2" "arg_s w3 = arg_s w2" "arg_a w3 = arg_a w2"
    using get_transition_model_frame[OF g] by simp_all
  have v2: "var_v0 w2 = modify_at f q (var_v0 w)"
    by (simp add: w2_def w1_def modify_ref_def)
  have n2: "node_at (var_v0 w2) q = Some (f n)"
    unfolding v2 by (rule node_at_modify_at_same[OF n])
  have v4: "var_v0 w4 = modify_at (children_update (\<lambda>cs. cs @ [c])) q (var_v0 w2)"
    by (simp add: w4_def modify_ref_def fr)
  have cc: "children c = []" "number_of_visits c = 1" "depth c = depth n + 1"
    "parent c = Some (In_v0 q)" "expendable_actions c = get_expendable_actions P"
    "average_reward c = 0"
    by (simp_all add: c_def new_node_def)
  have l2: "lab (var_v0 w2) q' = (if q' = q then Some (label (f n)) else lab (var_v0 w) q')" for q'
    unfolding v2 by (rule lab_modify_keep[OF n]) (simp add: f_def)
  have l4: "lab (var_v0 w4) q' =
            (if q' = q then Some ((label n)\<lparr>l_exp := erase (expendable_actions n) k,
                                   l_nchildren := Suc (length (children n))\<rparr>)
             else if q' = q @ [length (children n)] then Some (label c)
             else lab (var_v0 w) q')" for q'
    unfolding v4 using lab_modify_push[OF n2 cc(1), of q'] l2[of q']
    by (auto simp: f_def label_def)
  have n4: "node_at (var_v0 w4) q = Some (children_update (\<lambda>cs. cs @ [c]) (f n))"
    unfolding v4 by (rule node_at_modify_at_same[OF n2])
  have "arg_s w4 = arg_s w" "arg_a w4 = arg_a w" "var_v w4 = var_v w"
    by (simp_all add: w4_def modify_ref_def fr w2_def w1_def)
  then show ?thesis using cnc kl l4 n4 cc
    by (intro exI[of _ w4] exI[of _ c] exI[of _ k]) (simp add: f_def)
qed

definition frontier_ok :: "nat \<Rightarrow> 'fz frame \<Rightarrow> nat list \<Rightarrow> bool" where
  "frontier_ok i w pv =
     (mid_inv i (var_v0 w) (butlast pv) \<and> unat (depth (var_v w)) = length pv
      \<and> lab (var_v0 w) pv \<noteq> None
      \<and> (pv \<noteq> [] \<longrightarrow> parent (var_v w) = Some (In_v0 (butlast pv))
             \<and> lab (var_v0 w) (butlast pv) \<noteq> None))"

definition root_kept :: "b03_node \<Rightarrow> b03_node \<Rightarrow> bool" where
  "root_kept tr tr' =
     (s_node tr' = s_node tr \<and> number_of_visits tr' = number_of_visits tr
      \<and> depth tr' = depth tr)"

lemma length_erase: "k < length e \<Longrightarrow> length (erase e k) = length e - 1"
  by (simp add: erase_def)

lemma lab_root: "lab tr [] = Some (label tr)"
  by (simp add: lab_def)

lemma lab_butlast_exists:
  assumes "node_at tr q = Some n" "q \<noteq> []"
  shows "lab tr (butlast q) \<noteq> None"
proof -
  have "q = butlast q @ [last q]" using assms(2) by simp
  then have "node_at tr (butlast q @ [last q]) = Some n" using assms(1) by simp
  then show ?thesis by (auto simp: node_at_append lab_def split: option.splits)
qed

lemma tree_policy_ok:
  assumes "tree_inv i (var_v0 w)" "Suc i < 2 ^ 32" "node_at (var_v0 w) q = Some n"
  shows "\<exists>w' pv. tree_policy P rnd w q = Inr w' \<and> prefix q pv
           \<and> (\<not> is_terminal (s_node n) \<longrightarrow> pv \<noteq> q)
           \<and> frontier_ok i w' pv \<and> root_kept (var_v0 w) (var_v0 w')
           \<and> arg_s w' = arg_s w \<and> arg_a w' = arg_a w"
  using assms
proof (induction P rnd w q arbitrary: n rule: tree_policy.induct)
  case (1 P rnd w q)
  note inv = "1.prems"(1) and bound = "1.prems"(2) and n = "1.prems"(3)
  have ln: "lab (var_v0 w) q = Some (label n)" using n by (simp add: lab_def)
  from tree_invD[OF inv ln] have lq: "length q \<le> i" and okn: "node_ok i q (label n)"
    by simp_all
  show ?case
  proof (cases "is_terminal (s_node n)")
    case True
    have tp: "tree_policy P rnd w q = Inr (w\<lparr>var_v := n\<rparr>)"
      using n True by (subst tree_policy.simps) simp
    have "frontier_ok i (w\<lparr>var_v := n\<rparr>) q"
      using tree_inv_mid_inv[OF inv, of "butlast q"] okn ln lab_butlast_exists[OF n]
      by (simp add: frontier_ok_def node_ok_def label_def)
    then show ?thesis using tp True
      by (intro exI[of _ "w\<lparr>var_v := n\<rparr>"] exI[of _ q]) (simp add: root_kept_def)
  next
    case nt: False
    show ?thesis
    proof (cases "is_fully_expanded n")
      case True
      then have full: "expendable_actions n = []" by (simp add: is_fully_expanded_def)
      from get_best_uct_child_ok[OF inv n full, of P rnd]
      obtain k where k: "k < length (children n)"
        and gb: "get_best_uct_child P rnd w q = Inr (q @ [k], w\<lparr>rand_calls := Suc (rand_calls w)\<rparr>)"
        by blast
      let ?w1 = "w\<lparr>rand_calls := Suc (rand_calls w)\<rparr>"
      have tp: "tree_policy P rnd w q = tree_policy P rnd ?w1 (q @ [k])"
        using n nt True gb by (subst tree_policy.simps) simp
      have inv1: "tree_inv i (var_v0 ?w1)" using inv by simp
      have n1: "node_at (var_v0 ?w1) (q @ [k]) = Some (children n ! k)"
        using node_at_child[OF n k] by simp
      from "1.IH"[OF n nt True gb refl inv1 bound n1]
      obtain w' pv where r: "tree_policy P rnd ?w1 (q @ [k]) = Inr w'" "prefix (q @ [k]) pv"
        "frontier_ok i w' pv" "root_kept (var_v0 ?w1) (var_v0 w')"
        "arg_s w' = arg_s ?w1" "arg_a w' = arg_a ?w1"
        by blast
      have "prefix q pv" "pv \<noteq> q" using r(2) by (auto simp: prefix_def)
      then show ?thesis using tp r by (intro exI[of _ w'] exI[of _ pv]) simp
    next
      case False
      then have ne: "expendable_actions n \<noteq> []" by (simp add: is_fully_expanded_def)
      from create_new_child_ok[OF n ne, of P rnd]
      obtain w' c k where cn: "create_new_child P rnd w q = Inr w'"
        and k: "k < length (expendable_actions n)"
        and lb: "\<And>q'. lab (var_v0 w') q' =
            (if q' = q then Some ((label n)\<lparr>l_exp := erase (expendable_actions n) k,
                                   l_nchildren := Suc (length (children n))\<rparr>)
             else if q' = q @ [length (children n)] then Some (label c)
             else lab (var_v0 w) q')"
        and n1: "\<exists>n1. node_at (var_v0 w') q = Some n1 \<and> children n1 = children n @ [c]"
        and c: "children c = []" "number_of_visits c = 1" "depth c = depth n + 1"
           "parent c = Some (In_v0 q)" "expendable_actions c = get_expendable_actions P"
        and fr: "arg_s w' = arg_s w" "arg_a w' = arg_a w"
        by blast
      let ?pv = "q @ [length (children n)]"
      let ?w2 = "w'\<lparr>var_v := c\<rparr>"
      have tp: "tree_policy P rnd w q = Inr ?w2"
        using n nt False cn n1 by (subst tree_policy.simps) (auto simp: get_last_child_def)
      have dn: "unat (depth n) = length q" using okn by (simp add: node_ok_def label_def)
      have dc: "unat (depth c) = Suc (length q)"
        using unat_succ_bound[of "depth n" i] dn lq bound c(3) by simp
      have mi: "mid_inv i (var_v0 w') q"
        unfolding mid_inv_def
      proof (intro allI impI)
        fix q' l assume ql: "lab (var_v0 w') q' = Some l"
        consider "q' = q" | "q' = ?pv" | "q' \<noteq> q" "q' \<noteq> ?pv" by blast
        then show "length q' \<le> Suc i \<and> node_ok (if prefix q' q then i else Suc i) q' l"
        proof cases
          case 1
          then have l: "l = (label n)\<lparr>l_exp := erase (expendable_actions n) k,
                                   l_nchildren := Suc (length (children n))\<rparr>"
            using ql lb[of q'] by simp
          show ?thesis using 1 lq okn k
            by (simp add: l node_ok_def label_def length_erase)
        next
          case 2
          then have l: "l = label c" using ql lb[of q'] by simp
          have "\<not> prefix q' q" using 2 by (auto simp: prefix_def)
          then show ?thesis using 2 lq c dc
            by (simp add: l node_ok_def label_def get_expendable_actions_def)
        next
          case 3
          then have "lab (var_v0 w) q' = Some l" using ql lb[of q'] by simp
          from tree_invD[OF inv this] show ?thesis
            using node_ok_mono[of i q' l "Suc i"] by simp
        qed
      qed
      have "frontier_ok i ?w2 ?pv"
        using mi dc c lb[of ?pv] lb[of q] by (simp add: frontier_ok_def)
      moreover have "root_kept (var_v0 w) (var_v0 w')"
      proof (cases "q = []")
        case True
        then have "n = var_v0 w" using n by simp
        then show ?thesis using lb[of "[]"] True
          by (simp add: lab_root root_kept_def label_def)
      next
        case False
        then show ?thesis using lb[of "[]"]
          by (simp add: lab_root root_kept_def label_def)
      qed
      ultimately show ?thesis using tp fr
        by (intro exI[of _ ?w2] exI[of _ ?pv]) simp
    qed
  qed
qed

lemma backup_local_ok:
  assumes fo: "frontier_ok i w pv" and bound: "Suc i < 2 ^ 32"
  shows "\<exists>w'. backup P w Local_v reward = Some (Inr w') \<and> tree_inv (Suc i) (var_v0 w')
        \<and> s_node (var_v0 w') = s_node (var_v0 w) \<and> depth (var_v0 w') = depth (var_v0 w)
        \<and> length (children (var_v0 w')) = length (children (var_v0 w))
        \<and> number_of_visits (var_v0 w')
             = (if pv = [] then number_of_visits (var_v0 w) else number_of_visits (var_v0 w) + 1)
        \<and> arg_s w' = arg_s w \<and> arg_a w' = arg_a w"
proof -
  let ?f = "\<lambda>m. average_reward_update (\<lambda>x. x + df P ^ unat (depth (var_v w)) * reward)
                 (number_of_visits_update (\<lambda>n. n + 1) m)"
  let ?w2 = "w\<lparr>var_v := ?f (var_v w)\<rparr>"
  have mi: "mid_inv i (var_v0 w) (butlast pv)" and d: "unat (depth (var_v w)) = length pv"
    using fo by (simp_all add: frontier_ok_def)
  show ?thesis
  proof (cases "pv = []")
    case True
    then have "depth (var_v w) = 0" using d by (simp add: unat_eq_0)
    then have "backup P w Local_v reward = Some (Inr ?w2)"
      by (subst backup.simps) (simp add: deref_def modify_ref_def Let_def)
    then show ?thesis using True mid_inv_tree_inv[OF mi]
      by (intro exI[of _ ?w2]) simp
  next
    case False
    then have pos: "0 < depth (var_v w)" using d by (auto simp: word_greater_zero_iff)
    have par: "parent (var_v w) = Some (In_v0 (butlast pv))"
      and ex: "lab (var_v0 w) (butlast pv) \<noteq> None"
      using fo False by (simp_all add: frontier_ok_def)
    have bk: "backup P w Local_v reward = backup P ?w2 (In_v0 (butlast pv)) reward"
      using pos par by (subst backup.simps) (simp add: deref_def modify_ref_def Let_def)
    have mi2: "mid_inv i (var_v0 ?w2) (butlast pv)" and ex2: "lab (var_v0 ?w2) (butlast pv) \<noteq> None"
      using mi ex by simp_all
    from backup_in_tree_ok[OF mi2 bound ex2, of P reward]
    obtain w' where w': "backup P ?w2 (In_v0 (butlast pv)) reward = Some (Inr w')"
      "tree_inv (Suc i) (var_v0 w')"
      "\<exists>l l'. lab (var_v0 ?w2) [] = Some l \<and> lab (var_v0 w') [] = Some l'
              \<and> l_visits l' = l_visits l + 1 \<and> l_s l' = l_s l \<and> l_depth l' = l_depth l
              \<and> l_nchildren l' = l_nchildren l"
      "arg_s w' = arg_s ?w2" "arg_a w' = arg_a ?w2"
      by blast
    show ?thesis using w' bk False
      by (intro exI[of _ w']) (auto simp: lab_root label_def)
  qed
qed

lemma lab_nonroot_children:
  assumes "lab tr pv \<noteq> None" "pv \<noteq> []"
  shows "children tr \<noteq> []"
  using assms by (cases pv) (auto simp: lab_def split: if_splits)

lemma simulations_ok:
  assumes "tree_inv i (var_v0 w)" "i \<le> unat (computational_budget P)"
    and "\<not> is_terminal (s_node (var_v0 w))"
  shows "\<exists>w'. simulations P rnd uninit w i = Some (Inr w')
      \<and> tree_inv (unat (computational_budget P)) (var_v0 w')
      \<and> number_of_visits (var_v0 w')
          = number_of_visits (var_v0 w) + of_nat (unat (computational_budget P) - i)
      \<and> s_node (var_v0 w') = s_node (var_v0 w) \<and> depth (var_v0 w') = depth (var_v0 w)
      \<and> (i < unat (computational_budget P) \<longrightarrow> children (var_v0 w') \<noteq> [])
      \<and> (i = unat (computational_budget P) \<longrightarrow> var_v0 w' = var_v0 w)
      \<and> arg_s w' = arg_s w \<and> arg_a w' = arg_a w"
  using assms
proof (induction "unat (computational_budget P) - i" arbitrary: i w)
  case 0
  then have "i = unat (computational_budget P)" by simp
  then show ?case using 0 by (subst simulations.simps) simp
next
  case (Suc d)
  then have lt: "i < unat (computational_budget P)" by simp
  have "unat (computational_budget P) < 2 ^ 32"
    using unsigned_less[of "computational_budget P", where 'a = nat] by simp
  then have bound: "Suc i < 2 ^ 32" using lt by simp
  define w0 where "w0 = w\<lparr>var_v := new_node_stateless (get_expendable_actions P) 0 0 0\<rparr>"
  have inv0: "tree_inv i (var_v0 w0)" and n0: "node_at (var_v0 w0) [] = Some (var_v0 w0)"
    using Suc.prems(1) by (simp_all add: w0_def)
  from tree_policy_ok[OF inv0 bound n0, of P rnd] Suc.prems(3)
  obtain w1 pv where tp: "tree_policy P rnd w0 [] = Inr w1" and pv: "pv \<noteq> []"
    and fo: "frontier_ok i w1 pv" and rk: "root_kept (var_v0 w0) (var_v0 w1)"
    and f1: "arg_s w1 = arg_s w0" "arg_a w1 = arg_a w0"
    by (auto simp: w0_def)
  obtain r w2 where dp: "default_policy P rnd w1 (s_node (var_v w1)) (uninit i) = Inr (r, w2)"
    and f2: "var_v0 w2 = var_v0 w1" "var_v w2 = var_v w1" "arg_s w2 = arg_s w1" "arg_a w2 = arg_a w1"
    using default_policy_loop_frame[of "get_expendable_actions P" P rnd w1 0 "s_node (var_v w1)" "uninit i"]
    by (auto simp: default_policy_def get_expendable_actions_def)
  have fo2: "frontier_ok i w2 pv" using fo f2 by (simp add: frontier_ok_def)
  from backup_local_ok[OF fo2 bound, of P r] pv
  obtain w3 where bk: "backup P w2 Local_v r = Some (Inr w3)"
    and inv3: "tree_inv (Suc i) (var_v0 w3)"
    and r3: "s_node (var_v0 w3) = s_node (var_v0 w2)" "depth (var_v0 w3) = depth (var_v0 w2)"
      "length (children (var_v0 w3)) = length (children (var_v0 w2))"
      "number_of_visits (var_v0 w3) = number_of_visits (var_v0 w2) + 1"
    and f3: "arg_s w3 = arg_s w2" "arg_a w3 = arg_a w2"
    by auto
  have ch2: "children (var_v0 w2) \<noteq> []"
    using lab_nonroot_children[of "var_v0 w2" pv] fo2 pv by (simp add: frontier_ok_def)
  then have ch3: "children (var_v0 w3) \<noteq> []" using r3(3) by auto
  have root3: "s_node (var_v0 w3) = s_node (var_v0 w)" "depth (var_v0 w3) = depth (var_v0 w)"
    "number_of_visits (var_v0 w3) = number_of_visits (var_v0 w) + 1"
    using r3 f2 rk by (simp_all add: root_kept_def w0_def)
  have d: "d = unat (computational_budget P) - Suc i" using Suc.hyps(2) by simp
  have nt3: "\<not> is_terminal (s_node (var_v0 w3))" using root3 Suc.prems(3) by simp
  from Suc.hyps(1)[OF d inv3 _ nt3] lt
  obtain w' where w': "simulations P rnd uninit w3 (Suc i) = Some (Inr w')"
    "tree_inv (unat (computational_budget P)) (var_v0 w')"
    "number_of_visits (var_v0 w')
          = number_of_visits (var_v0 w3) + of_nat (unat (computational_budget P) - Suc i)"
    "s_node (var_v0 w') = s_node (var_v0 w3)" "depth (var_v0 w') = depth (var_v0 w3)"
    "Suc i < unat (computational_budget P) \<longrightarrow> children (var_v0 w') \<noteq> []"
    "Suc i = unat (computational_budget P) \<longrightarrow> var_v0 w' = var_v0 w3"
    "arg_s w' = arg_s w3" "arg_a w' = arg_a w3"
    by auto
  have sim: "simulations P rnd uninit w i = Some (Inr w')"
    using lt tp dp bk w'(1)
    by (subst simulations.simps) (simp add: w0_def[symmetric] Let_def)
  have vis: "number_of_visits (var_v0 w')
          = number_of_visits (var_v0 w) + of_nat (unat (computational_budget P) - i)"
  proof -
    have "unat (computational_budget P) - i = Suc (unat (computational_budget P) - Suc i)"
      using lt by simp
    then show ?thesis using w'(3) root3(3) by simp
  qed
  have ch: "children (var_v0 w') \<noteq> []"
    using w'(6) w'(7) ch3 lt by (cases "Suc i = unat (computational_budget P)") auto
  show ?case using sim w' vis ch root3 f1 f2 f3 lt
    by (intro exI[of _ w']) (simp add: w0_def)
qed

lemma tree_inv_new_root:
  "tree_inv 0 (new_node st (get_expendable_actions P) r n 0)"
  unfolding tree_inv_def
proof (intro allI impI)
  fix q l
  assume ql: "lab (new_node st (get_expendable_actions P) r n 0) q = Some l"
  then have q: "q = []" by (cases q) (auto simp: lab_def new_node_def)
  then have "l = label (new_node st (get_expendable_actions P) r n 0)"
    using ql by (simp add: lab_def)
  then show "length q \<le> 0 \<and> node_ok 0 q l"
    using q by (simp add: node_ok_def label_def new_node_def get_expendable_actions_def)
qed

lemma get_best_action_ok:
  assumes "children (var_v0 w) \<noteq> []"
  shows "\<exists>k. k < length (children (var_v0 w))
      \<and> (\<forall>j < length (children (var_v0 w)).
            average_reward (children (var_v0 w) ! j) \<le> average_reward (children (var_v0 w) ! k))
      \<and> get_best_action rnd w
          = Inr (w\<lparr>rand_calls := Suc (rand_calls w),
                   arg_a := incoming_action (children (var_v0 w) ! k)\<rparr>)"
proof -
  define scores where "scores = map average_reward (children (var_v0 w))"
  have "scores \<noteq> []" using assms by (simp add: scores_def)
  then have ne: "sort_indices scores \<noteq> []" by (rule sort_indices_nonempty)
  define k where "k = sort_indices scores ! (rnd (rand_calls w) mod length (sort_indices scores))"
  have "k \<in> set (sort_indices scores)" using ne by (simp add: k_def)
  from sort_indices_elem[OF this]
  have kl0: "k < length scores" and sm: "\<forall>j < length scores. scores ! j \<le> scores ! k"
    by blast+
  have kl: "k < length (children (var_v0 w))" using kl0 by (simp add: scores_def)
  have mx: "\<forall>j < length (children (var_v0 w)).
            average_reward (children (var_v0 w) ! j) \<le> average_reward (children (var_v0 w) ! k)"
  proof (intro allI impI)
    fix j assume j: "j < length (children (var_v0 w))"
    then have "scores ! j \<le> scores ! k" using sm by (simp add: scores_def)
    then show "average_reward (children (var_v0 w) ! j)
                 \<le> average_reward (children (var_v0 w) ! k)"
      using j kl by (simp add: scores_def)
  qed
  have "get_best_action rnd w
          = Inr (w\<lparr>rand_calls := Suc (rand_calls w),
                   arg_a := incoming_action (children (var_v0 w) ! k)\<rparr>)"
    using ne kl
    by (simp add: get_best_action_def Let_def scores_def[symmetric] rand_element_def
          rand_indice_def at_vec_def k_def[symmetric])
  then show ?thesis using kl mx by blast
qed

lemma simulations_from_root:
  assumes "\<not> is_terminal (arg_s w)"
  shows "\<exists>w1. simulations P rnd uninit
                 (w\<lparr>var_v0 := new_node (arg_s w) (get_expendable_actions P) 0 1 0\<rparr>) 0
               = Some (Inr w1)
      \<and> tree_inv (unat (computational_budget P)) (var_v0 w1)
      \<and> number_of_visits (var_v0 w1) = 1 + computational_budget P
      \<and> s_node (var_v0 w1) = arg_s w
      \<and> (0 < computational_budget P \<longrightarrow> children (var_v0 w1) \<noteq> [])
      \<and> arg_s w1 = arg_s w \<and> arg_a w1 = arg_a w"
proof -
  let ?w0 = "w\<lparr>var_v0 := new_node (arg_s w) (get_expendable_actions P) 0 1 0\<rparr>"
  have inv: "tree_inv 0 (var_v0 ?w0)" using tree_inv_new_root[of "arg_s w" P 0 1] by simp
  have nt: "\<not> is_terminal (s_node (var_v0 ?w0))" using assms by (simp add: new_node_def)
  from simulations_ok[OF inv _ nt, of P rnd uninit]
  obtain w1 where w1: "simulations P rnd uninit ?w0 0 = Some (Inr w1)"
    "tree_inv (unat (computational_budget P)) (var_v0 w1)"
    "number_of_visits (var_v0 w1)
          = number_of_visits (var_v0 ?w0) + of_nat (unat (computational_budget P) - 0)"
    "s_node (var_v0 w1) = s_node (var_v0 ?w0)"
    "0 < unat (computational_budget P) \<longrightarrow> children (var_v0 w1) \<noteq> []"
    "arg_s w1 = arg_s ?w0" "arg_a w1 = arg_a ?w0"
    by auto
  have "0 < computational_budget P \<Longrightarrow> 0 < unat (computational_budget P)"
    by (simp add: word_greater_zero_iff unat_gt_0)
  then show ?thesis using w1
    by (intro exI[of _ w1]) (simp add: new_node_def)
qed

lemma operator_call_returns:
  assumes "\<not> is_terminal (arg_s w)" "0 < computational_budget P"
  shows "\<exists>w' c. operator_call P rnd uninit w = Some (Inr w')
      \<and> number_of_visits (var_v0 w') = 1 + computational_budget P
      \<and> s_node (var_v0 w') = arg_s w \<and> arg_s w' = arg_s w
      \<and> c \<in> set (children (var_v0 w')) \<and> arg_a w' = incoming_action c
      \<and> (\<forall>c' \<in> set (children (var_v0 w')). average_reward c' \<le> average_reward c)"
proof -
  from simulations_from_root[OF assms(1), of P rnd uninit] assms(2)
  obtain w1 where w1: "simulations P rnd uninit
                 (w\<lparr>var_v0 := new_node (arg_s w) (get_expendable_actions P) 0 1 0\<rparr>) 0
               = Some (Inr w1)"
    "number_of_visits (var_v0 w1) = 1 + computational_budget P"
    "s_node (var_v0 w1) = arg_s w" "children (var_v0 w1) \<noteq> []" "arg_s w1 = arg_s w"
    by auto
  from get_best_action_ok[OF w1(4), of rnd]
  obtain k where k: "k < length (children (var_v0 w1))"
    "\<forall>j < length (children (var_v0 w1)).
            average_reward (children (var_v0 w1) ! j) \<le> average_reward (children (var_v0 w1) ! k)"
    "get_best_action rnd w1
          = Inr (w1\<lparr>rand_calls := Suc (rand_calls w1),
                   arg_a := incoming_action (children (var_v0 w1) ! k)\<rparr>)"
    by blast
  let ?w' = "w1\<lparr>rand_calls := Suc (rand_calls w1),
                   arg_a := incoming_action (children (var_v0 w1) ! k)\<rparr>"
  have "operator_call P rnd uninit w = Some (Inr ?w')"
    using w1(1) k(3) by (simp add: operator_call_def Let_def)
  moreover have "\<forall>c' \<in> set (children (var_v0 ?w')).
       average_reward c' \<le> average_reward (children (var_v0 w1) ! k)"
    using k(2) by (auto simp: in_set_conv_nth)
  ultimately show ?thesis using w1 k(1)
    by (intro exI[of _ ?w'] exI[of _ "children (var_v0 w1) ! k"]) simp
qed

lemma get_best_action_frame:
  "get_best_action rnd w = Inr w' \<Longrightarrow> arg_s w' = arg_s w \<and> var_v0 w' = var_v0 w \<and> ac w' = ac w"
  by (auto simp: get_best_action_def Let_def rand_element_def rand_indice_def at_vec_def
           split: sum.splits if_splits prod.splits)

lemma get_best_action_no_assertion:
  "get_best_action rnd w \<noteq> Inl Assertion_failed"
  by (auto simp: get_best_action_def Let_def rand_element_def rand_indice_def at_vec_def
           split: sum.splits if_splits prod.splits)

lemma operator_call_arg_s:
  assumes "operator_call P rnd uninit w = Some (Inr w')"
  shows "arg_s w' = arg_s w \<and> s_node (var_v0 w') = arg_s w"
proof (cases "is_terminal (arg_s w)")
  case True
  from operator_call_terminal_root[OF this, of P rnd uninit] assms show ?thesis by simp
next
  case False
  from simulations_from_root[OF False, of P rnd uninit]
  obtain w1 where w1: "simulations P rnd uninit
                 (w\<lparr>var_v0 := new_node (arg_s w) (get_expendable_actions P) 0 1 0\<rparr>) 0
               = Some (Inr w1)" "s_node (var_v0 w1) = arg_s w" "arg_s w1 = arg_s w"
    by blast
  then have "get_best_action rnd w1 = Inr w'"
    using assms by (simp add: operator_call_def Let_def split: sum.splits)
  from get_best_action_frame[OF this] w1 show ?thesis by simp
qed

lemma simulations_always_complete:
  "\<exists>w1. simulations P rnd uninit
           (w\<lparr>var_v0 := new_node (arg_s w) (get_expendable_actions P) 0 1 0\<rparr>) 0
         = Some (Inr w1)"
proof (cases "is_terminal (arg_s w)")
  case True
  let ?w0 = "w\<lparr>var_v0 := new_node (arg_s w) (get_expendable_actions P) 0 1 0\<rparr>"
  have "is_terminal (s_node (var_v0 ?w0))" "depth (var_v0 ?w0) = 0"
    using True by (simp_all add: new_node_def)
  from simulations_terminal_root[OF this, of P rnd uninit 0] show ?thesis by blast
next
  case False
  from simulations_from_root[OF False, of P rnd uninit] show ?thesis by blast
qed

lemma count_nodes_children:
  "count_nodes n = Suc (sum_list (map count_nodes (children n)))"
  by (cases n) simp

lemma sum_list_update_nat:
  "j < length xs \<Longrightarrow> sum_list (xs[j := y]) + xs ! j = sum_list xs + (y::nat)"
  by (induction xs arbitrary: j) (auto split: nat.splits)

lemma count_nodes_modify_at:
  "node_at tr p = Some n \<Longrightarrow>
   count_nodes (modify_at f p tr) + count_nodes n = count_nodes tr + count_nodes (f n)"
proof (induction p arbitrary: tr)
  case Nil
  then show ?case by simp
next
  case (Cons j p)
  then have j: "j < length (children tr)" and n: "node_at (children tr ! j) p = Some n"
    by (auto split: if_splits)
  let ?m = "modify_at f p (children tr ! j)"
  have ih: "count_nodes ?m + count_nodes n = count_nodes (children tr ! j) + count_nodes (f n)"
    by (rule Cons.IH[OF n])
  have "sum_list (map count_nodes ((children tr)[j := ?m])) + count_nodes (children tr ! j)
          = sum_list (map count_nodes (children tr)) + count_nodes ?m"
    using j sum_list_update_nat[of j "map count_nodes (children tr)" "count_nodes ?m"]
    by (simp add: map_update)
  then show ?case
    using j ih by (simp add: count_nodes_children[of tr]
          count_nodes_children[of "children_update _ tr"])
qed

lemma get_transition_model_var_v0:
  "get_transition_model P (w\<lparr>var_v0 := X\<rparr>) st a
     = (case get_transition_model P w st a of (s', w') \<Rightarrow> (s', w'\<lparr>var_v0 := X\<rparr>))"
  by (simp add: get_transition_model_def Let_def split: prod.splits)

lemma tree_policy_expand:
  assumes n: "node_at (var_v0 w) q = Some n0" and nt: "\<not> is_terminal (s_node n0)"
    and nf: "\<not> is_fully_expanded n0"
  shows "tree_policy P rnd w q =
     (let k = rnd (rand_calls w) mod length (expendable_actions n0);
          a = expendable_actions n0 ! k;
          w1 = w\<lparr>rand_calls := Suc (rand_calls w)\<rparr>
      in case get_transition_model P w1 (s_node n0) a of
           (s_prime, w3) \<Rightarrow>
             (let c = B03_node s_prime a (get_expendable_actions P) 0 1 (depth n0 + 1)
                        (Some (In_v0 q)) [];
                  n1 = B03_node (s_node n0) (incoming_action n0)
                         (erase (expendable_actions n0) k) (average_reward n0)
                         (number_of_visits n0) (depth n0) (parent n0) (children n0 @ [c])
              in Inr (w3\<lparr>var_v0 := modify_at (\<lambda>_. n1) q (var_v0 w), var_v := c\<rparr>)))"
proof -
  define k where "k = rnd (rand_calls w) mod length (expendable_actions n0)"
  define a where "a = expendable_actions n0 ! k"
  define w1 where "w1 = w\<lparr>rand_calls := Suc (rand_calls w)\<rparr>"
  define f where "f = expendable_actions_update (\<lambda>e. erase e k)"
  obtain s' w3 where g: "get_transition_model P w1 (s_node n0) a = (s', w3)"
    by (cases "get_transition_model P w1 (s_node n0) a")
  define c where "c = B03_node s' a (get_expendable_actions P) 0 1 (depth n0 + 1)
                        (Some (In_v0 q)) []"
  define n1 where "n1 = B03_node (s_node n0) (incoming_action n0)
                         (erase (expendable_actions n0) k) (average_reward n0)
                         (number_of_visits n0) (depth n0) (parent n0) (children n0 @ [c])"
  have ne: "expendable_actions n0 \<noteq> []" using nf by (simp add: is_fully_expanded_def)
  then have kl: "k < length (expendable_actions n0)" by (simp add: k_def)
  have fr: "var_v0 w3 = var_v0 w1" using get_transition_model_frame[OF g] by simp
  have cc: "parent_update (\<lambda>_. Some (In_v0 q)) (incoming_action_update (\<lambda>_. a)
      (new_node s' (get_expendable_actions P) 0 1 (depth n0 + 1))) = c"
    by (simp add: c_def new_node_def)
  have g2: "get_transition_model P (w1\<lparr>var_v0 := modify_at f q (var_v0 w)\<rparr>) (s_node n0) a
              = (s', w3\<lparr>var_v0 := modify_at f q (var_v0 w)\<rparr>)"
    using g by (simp add: get_transition_model_var_v0)
  have tw: "modify_at (children_update (\<lambda>cs. cs @ [c])) q (modify_at f q (var_v0 w))
              = modify_at (\<lambda>_. n1) q (var_v0 w)"
  proof -
    have "modify_at (children_update (\<lambda>cs. cs @ [c])) q (modify_at f q (var_v0 w))
            = modify_at (\<lambda>m. children_update (\<lambda>cs. cs @ [c]) (f m)) q (var_v0 w)"
      by (rule modify_at_twice[OF n])
    also have "\<dots> = modify_at (\<lambda>_. n1) q (var_v0 w)"
      by (rule modify_at_agree[OF n]) (cases n0, simp add: f_def n1_def)
    finally show ?thesis .
  qed
  have v1: "var_v0 w1 = var_v0 w" by (simp add: w1_def)
  have cnc: "create_new_child P rnd w q
               = Inr (w3\<lparr>var_v0 := modify_at (\<lambda>_. n1) q (var_v0 w)\<rparr>)"
    using n ne kl g2 tw
    by (simp add: create_new_child_def rand_indice_def at_vec_def Let_def k_def[symmetric]
          w1_def[symmetric] a_def[symmetric] f_def[symmetric] cc modify_ref_def v1)
  have n4: "node_at (modify_at (\<lambda>_. n1) q (var_v0 w)) q = Some n1"
    by (rule node_at_modify_at_same[OF n])
  have "tree_policy P rnd w q
          = Inr (w3\<lparr>var_v0 := modify_at (\<lambda>_. n1) q (var_v0 w), var_v := c\<rparr>)"
    using n nt nf cnc n4
    by (subst tree_policy.simps) (simp add: get_last_child_def n1_def)
  then show ?thesis
    using g by (simp add: Let_def k_def[symmetric] a_def[symmetric] w1_def[symmetric]
          c_def[symmetric] n1_def[symmetric])
qed

lemma sort_indices_set:
  "set (sort_indices scores)
     = {i. i < length scores \<and> (\<forall>j < length scores. scores ! j \<le> scores ! i)}"
  by (auto simp: sort_indices_def all_set_conv_all_nth)

lemma sort_indices_distinct: "distinct (sort_indices scores)"
  by (simp add: sort_indices_def)

lemma uct_scores_length:
  "uct_scores P w cs = Inr scores \<Longrightarrow> length scores = length cs"
  by (induction cs arbitrary: scores) (auto split: sum.splits)

lemma tree_policy_select:
  assumes n: "node_at (var_v0 w) q = Some n0" and nt: "\<not> is_terminal (s_node n0)"
    and fl: "is_fully_expanded n0"
    and sc: "uct_scores P w (children n0) = Inr scores" and ne: "scores \<noteq> []"
  shows "sort_indices scores ! (rnd (rand_calls w) mod length (sort_indices scores))
           < length (children n0)
     \<and> tree_policy P rnd w q
         = tree_policy P rnd (w\<lparr>rand_calls := Suc (rand_calls w)\<rparr>)
             (q @ [sort_indices scores ! (rnd (rand_calls w) mod length (sort_indices scores))])"
proof -
  define k where "k = sort_indices scores ! (rnd (rand_calls w) mod length (sort_indices scores))"
  have bne: "sort_indices scores \<noteq> []" using ne by (rule sort_indices_nonempty)
  then have "k \<in> set (sort_indices scores)" by (simp add: k_def)
  then have kl: "k < length (children n0)"
    using sort_indices_elem[of k scores] uct_scores_length[OF sc] by simp
  have "get_best_uct_child P rnd w q = Inr (q @ [k], w\<lparr>rand_calls := Suc (rand_calls w)\<rparr>)"
    using n sc bne kl
    by (simp add: get_best_uct_child_def rand_element_def rand_indice_def at_vec_def k_def)
  then have "tree_policy P rnd w q
         = tree_policy P rnd (w\<lparr>rand_calls := Suc (rand_calls w)\<rparr>) (q @ [k])"
    using n nt fl by (subst tree_policy.simps) simp
  then show ?thesis using kl by (simp add: k_def)
qed

lemma get_best_uct_child_frame:
  "get_best_uct_child P rnd w q = Inr (c, w') \<Longrightarrow> var_v0 w' = var_v0 w"
  by (auto simp: get_best_uct_child_def rand_element_def rand_indice_def at_vec_def
           split: option.splits sum.splits if_splits prod.splits)

lemma tree_policy_count:
  "tree_policy P rnd w q = Inr w' \<Longrightarrow> count_nodes (var_v0 w') \<le> count_nodes (var_v0 w) + 1"
proof (induction P rnd w q rule: tree_policy.induct)
  case (1 P rnd w q)
  from "1.prems" obtain n0 where n: "node_at (var_v0 w) q = Some n0"
    by (subst (asm) tree_policy.simps) (auto split: option.splits)
  show ?case
  proof (cases "is_terminal (s_node n0)")
    case True
    then show ?thesis using "1.prems" n by (subst (asm) tree_policy.simps) auto
  next
    case nt: False
    show ?thesis
    proof (cases "is_fully_expanded n0")
      case True
      from "1.prems" n nt True obtain c w1 where
        gb: "get_best_uct_child P rnd w q = Inr (c, w1)" and tp: "tree_policy P rnd w1 c = Inr w'"
        by (subst (asm) tree_policy.simps) (auto split: sum.splits)
      from "1.IH"[OF n nt True gb refl tp] get_best_uct_child_frame[OF gb]
      show ?thesis by simp
    next
      case False
      obtain s' w3 where g: "get_transition_model P (w\<lparr>rand_calls := Suc (rand_calls w)\<rparr>)
          (s_node n0) (expendable_actions n0 !
             (rnd (rand_calls w) mod length (expendable_actions n0))) = (s', w3)"
        by (cases "get_transition_model P (w\<lparr>rand_calls := Suc (rand_calls w)\<rparr>)
          (s_node n0) (expendable_actions n0 !
             (rnd (rand_calls w) mod length (expendable_actions n0)))")
      let ?c = "B03_node s' (expendable_actions n0 !
             (rnd (rand_calls w) mod length (expendable_actions n0)))
             (get_expendable_actions P) 0 1 (depth n0 + 1) (Some (In_v0 q)) []"
      let ?n1 = "B03_node (s_node n0) (incoming_action n0)
                         (erase (expendable_actions n0)
                            (rnd (rand_calls w) mod length (expendable_actions n0)))
                         (average_reward n0)
                         (number_of_visits n0) (depth n0) (parent n0) (children n0 @ [?c])"
      have "var_v0 w' = modify_at (\<lambda>_. ?n1) q (var_v0 w)"
        using "1.prems" tree_policy_expand[OF n nt False, of P rnd] g
        by (auto simp: Let_def)
      moreover have "count_nodes ?n1 = Suc (count_nodes n0)"
        by (simp add: count_nodes_children[of n0])
      ultimately show ?thesis
        using count_nodes_modify_at[OF n, of "\<lambda>_. ?n1"] by simp
    qed
  qed
qed

lemma count_nodes_modify_at_fields:
  "(\<And>n. count_nodes (f n) = count_nodes n) \<Longrightarrow> count_nodes (modify_at f p tr) = count_nodes tr"
proof (induction p arbitrary: tr)
  case Nil
  then show ?case by simp
next
  case (Cons j p)
  show ?case
  proof (cases "j < length (children tr)")
    case True
    have "sum_list (map count_nodes ((children tr)[j := modify_at f p (children tr ! j)]))
            = sum_list (map count_nodes (children tr))"
      using True Cons.IH[OF Cons.prems, of "children tr ! j"]
        sum_list_update_nat[of j "map count_nodes (children tr)"
           "count_nodes (modify_at f p (children tr ! j))"]
      by (simp add: map_update)
    then show ?thesis using True
      by (simp add: count_nodes_children[of tr] count_nodes_children[of "children_update _ tr"])
  next
    case False
    then show ?thesis by simp
  qed
qed

lemma count_nodes_field_updates [simp]:
  "count_nodes (number_of_visits_update f n) = count_nodes n"
  "count_nodes (average_reward_update g n) = count_nodes n"
  by (cases n; simp)+

lemma backup_count_aux:
  assumes "backup P w r reward = Some y"
  shows "\<forall>w'. y = Inr w' \<longrightarrow> count_nodes (var_v0 w') = count_nodes (var_v0 w)"
proof -
  let ?Q = "\<lambda>x y. \<forall>w'. y = Inr w' \<longrightarrow>
              count_nodes (var_v0 w') = count_nodes (var_v0 (snd (fst (fst x))))"
  have "?Q (((P, w), r), reward) y"
  proof (rule backup.raw_induct[where Pa = ?Q, OF _ assms])
    fix bk P w r reward y
    assume ih: "\<And>P w r reward y. bk P w r reward = Some y \<Longrightarrow> ?Q (((P, w), r), reward) y"
      and body: "(case deref w r of
        None \<Rightarrow> Some (Inl Undefined_behaviour)
      | Some vn \<Rightarrow>
          (let w1 = modify_ref (number_of_visits_update (\<lambda>n. n + 1)) r w;
               w2 = modify_ref
                      (average_reward_update (\<lambda>x. x + df P ^ unat (depth vn) * reward)) r w1
           in if 0 < depth vn then
                (case parent vn of
                   None \<Rightarrow> Some (Inl Undefined_behaviour)
                 | Some p \<Rightarrow> bk P w2 p reward)
              else Some (Inr w2))) = Some y"
    show "?Q (((P, w), r), reward) y"
    proof (cases "deref w r")
      case None
      then show ?thesis using body by auto
    next
      case (Some vn)
      let ?w2 = "modify_ref (average_reward_update (\<lambda>x. x + df P ^ unat (depth vn) * reward)) r
                   (modify_ref (number_of_visits_update (\<lambda>n. n + 1)) r w)"
      have c2: "count_nodes (var_v0 ?w2) = count_nodes (var_v0 w)"
        by (cases r) (simp_all add: modify_ref_def count_nodes_modify_at_fields)
      show ?thesis
      proof (cases "0 < depth vn")
        case False
        then show ?thesis using body Some c2 by (auto simp: Let_def)
      next
        case True
        show ?thesis
        proof (cases "parent vn")
          case None
          then show ?thesis using body Some True by (auto simp: Let_def)
        next
          case (Some p)
          then have "bk P ?w2 p reward = Some y"
            using body \<open>deref w r = Some vn\<close> True by (simp add: Let_def)
          from ih[OF this] c2 show ?thesis by simp
        qed
      qed
    qed
  qed
  then show ?thesis by simp
qed

lemma backup_count:
  "backup P w r reward = Some (Inr w') \<Longrightarrow> count_nodes (var_v0 w') = count_nodes (var_v0 w)"
  using backup_count_aux[of P w r reward "Inr w'"] by simp

lemma uct_scores_link:
  "length scores = length cs \<Longrightarrow>
   (\<forall>i < length cs. get_uct_score P w (cs ! i) = Inr (scores ! i)) \<Longrightarrow>
   uct_scores P w cs = Inr scores"
proof (induction cs arbitrary: scores)
  case Nil
  then show ?case by simp
next
  case (Cons c cs)
  then obtain x xs where s: "scores = x # xs" by (cases scores) auto
  have h: "get_uct_score P w c = Inr x" using Cons.prems(2) s by auto
  have "\<forall>i < length cs. get_uct_score P w (cs ! i) = Inr (xs ! i)"
    using Cons.prems(2) s by auto
  then have "uct_scores P w cs = Inr xs" using Cons.IH[of xs] Cons.prems(1) s by simp
  then show ?case using h s by simp
qed

lemma sort_indices_sorted: "sorted_wrt (<) (sort_indices scores)"
  by (simp add: sort_indices_def sorted_wrt_filter)

lemma ex_score_lo_hi: "ex_score_lo < ex_score_hi"
proof -
  have "0 < ln (7::real)" by simp
  then have "2 * ln 7 / 4 < 2 * ln (7::real)" by simp
  then show ?thesis by (simp add: ex_score_lo_def ex_score_hi_def)
qed

lemma ex_sort_indices: "sort_indices [ex_score_lo, ex_score_hi, ex_score_hi] = [1, 2]"
  using ex_score_lo_hi by (simp add: sort_indices_def upt_rec)

lemma sort_indices_pick_max:
  assumes "scores \<noteq> []" "j < length scores"
  shows "scores ! j \<le> scores ! (sort_indices scores ! (r mod length (sort_indices scores)))"
proof -
  have "sort_indices scores \<noteq> []" using assms(1) by (rule sort_indices_nonempty)
  then have "sort_indices scores ! (r mod length (sort_indices scores)) \<in> set (sort_indices scores)"
    by simp
  from sort_indices_elem[OF this] assms(2) show ?thesis by simp
qed

subsection \<open>One simulation of the concrete configuration\<close>

lemma ex_far_distance: "get_distance_to_center ex_far_state = 1300"
proof -
  have "sqrt (1300 * 1300) = (1300::real)" by (simp only: real_sqrt_abs2)
  then show ?thesis
    by (simp add: get_distance_to_center_def ex_far_state_def default_state_def)
qed

lemma ex_terminal_distance: "get_distance_to_center ex_terminal_state = 0"
  by (simp add: get_distance_to_center_def ex_terminal_state_def default_state_def)

lemmas ex_defs = ex_pilot_def ex_rnd_def ex_uninit_def ex_frame_def ex_ac_def ex_state_def
  ex_high_state_def ex_low_state_def ex_terminal_state_def default_state_def
  default_command_def ex_tf_def ex_child_def ex_frame_after_def

lemmas step_defs = get_expendable_actions_def rand_element_def rand_indice_def
  get_transition_model_def set_state_def set_command_def get_state_def is_terminal_def
  get_reward_model_def new_node_def new_node_stateless_def is_fully_expanded_def
  create_new_child_def at_vec_def erase_def modify_ref_def deref_def get_last_child_def
  Let_def

lemma ex_simulations:
  "simulations ex_pilot ex_rnd ex_uninit
      (ex_frame\<lparr>arg_s := ex_high_state,
          var_v0 := new_node ex_high_state (get_expendable_actions ex_pilot) 0 1 0\<rparr>) 0
     = Some (Inr ex_frame_after)"
  apply (subst simulations.simps)
  apply (simp add: ex_defs)
  apply (subst tree_policy.simps)
  apply (simp add: step_defs ex_defs)
  apply (simp add: default_policy_def)
  apply (subst default_policy_loop.simps)
  apply (simp add: step_defs ex_defs)
  apply (subst default_policy_loop.simps)
  apply (simp add: step_defs ex_defs)
  apply (subst backup.simps)
  apply (simp add: step_defs ex_defs)
  apply (subst backup.simps)
  apply (simp add: step_defs ex_defs)
  apply (subst simulations.simps)
  apply (simp add: step_defs ex_defs)
  done

lemma ex_operator_call:
  "operator_call ex_pilot ex_rnd ex_uninit (ex_frame\<lparr>arg_s := ex_high_state\<rparr>)
     = Some (Inr (ex_frame_after\<lparr>arg_a := \<lparr>dalpha = 0, dbeta = 0, dsigma = 1/100\<rparr>,
                                 rand_calls := 4\<rparr>))"
  using ex_simulations
  by (simp add: operator_call_def Let_def get_best_action_def sort_indices_def
        rand_element_def rand_indice_def at_vec_def ex_frame_after_def ex_child_def ex_rnd_def)

section \<open>The claims\<close>

text \<open>
  C1: the three cases of the tree policy on the node \<open>n0\<close> behind \<open>q\<close>; what it hands back
  is the value it assigns to the local \<^verbatim>\<open>v\<close>. A terminal state (\<open>z < 0\<close>): \<^verbatim>\<open>v\<close> receives
  the node, the tree is unchanged. No untried action left: with \<open>scores ! i\<close> the UCT
  score that \<^verbatim>\<open>get_uct_score\<close> gives child \<open>i\<close>, the policy goes on in the child whose index
  is drawn from the increasing list of exactly the indices with maximal score (the draw
  taken modulo the length of that list), so the chosen child has a maximal UCT score.
  Otherwise: with \<open>k\<close> the draw modulo the number of untried actions, the \<open>k\<close>-th untried
  action is removed and the others stay in order, the transition function runs on the
  pilot's aircraft with the node's state and that action, and one new child (the
  resulting state, the action, the three actions of the full set, return 0, depth of the
  parent plus one, the parent pointer, no children) is appended to the children of the
  node and assigned to \<^verbatim>\<open>v\<close>. The tree grows by one node at most, also over a whole
  simulation (tree policy, rollout, backup).
\<close>

theorem tree_policy_three_cases:
  "node_at (var_v0 w) q = Some n0 \<Longrightarrow>
   (z_st (s_node n0) < 0 \<longrightarrow> tree_policy P rnd w q = Inr (w\<lparr>var_v := n0\<rparr>))
   \<and> (\<not> z_st (s_node n0) < 0 \<and> expendable_actions n0 = [] \<longrightarrow>
        (\<forall>scores. length scores = length (children n0) \<and> scores \<noteq> []
            \<and> (\<forall>i < length (children n0).
                   get_uct_score P w (children n0 ! i) = Inr (scores ! i)) \<longrightarrow>
           set (sort_indices scores)
             = {i. i < length (children n0)
                   \<and> (\<forall>j < length (children n0). scores ! j \<le> scores ! i)}
           \<and> sorted_wrt (<) (sort_indices scores) \<and> sort_indices scores \<noteq> []
           \<and> sort_indices scores ! (rnd (rand_calls w) mod length (sort_indices scores))
               < length (children n0)
           \<and> (\<forall>j < length (children n0).
                 scores ! j
                   \<le> scores ! (sort_indices scores
                                 ! (rnd (rand_calls w) mod length (sort_indices scores))))
           \<and> tree_policy P rnd w q
               = tree_policy P rnd (w\<lparr>rand_calls := Suc (rand_calls w)\<rparr>)
                   (q @ [sort_indices scores
                           ! (rnd (rand_calls w) mod length (sort_indices scores))])))
   \<and> (\<not> z_st (s_node n0) < 0 \<and> expendable_actions n0 \<noteq> [] \<longrightarrow>
        tree_policy P rnd w q =
          (let k = rnd (rand_calls w) mod length (expendable_actions n0);
               a = expendable_actions n0 ! k
           in case transition_function P ((ac w)\<lparr>s_ac := s_node n0, u_ac := a\<rparr>) (fz w)
                     (time (s_node n0)) (time_step_width P) (sub_time_step_width P) of
                (ac3, fz3, t3) \<Rightarrow>
                  (let c = B03_node (s_ac ac3) a
                             [\<lparr>dalpha = 0, dbeta = 0, dsigma = angle_rate_magnitude P\<rparr>,
                              \<lparr>dalpha = 0, dbeta = 0, dsigma = 0\<rparr>,
                              \<lparr>dalpha = 0, dbeta = 0, dsigma = - angle_rate_magnitude P\<rparr>]
                             0 1 (depth n0 + 1) (Some (In_v0 q)) [];
                       n1 = B03_node (s_node n0) (incoming_action n0)
                              (take k (expendable_actions n0)
                                 @ drop (Suc k) (expendable_actions n0))
                              (average_reward n0) (number_of_visits n0) (depth n0) (parent n0)
                              (children n0 @ [c])
                   in Inr (w\<lparr>ac := ac3, fz := fz3,
                              var_v0 := modify_at (\<lambda>_. n1) q (var_v0 w), var_v := c,
                              rand_calls := Suc (rand_calls w)\<rparr>))))
   \<and> (\<forall>n1. node_at (modify_at (\<lambda>_. n1) q (var_v0 w)) q = Some n1)
   \<and> count_nodes n0 = Suc (sum_list (map count_nodes (children n0)))
   \<and> (\<forall>w'. tree_policy P rnd w q = Inr w'
          \<longrightarrow> count_nodes (var_v0 w') \<le> count_nodes (var_v0 w) + 1)
   \<and> (\<forall>w1 r0 r w2 w3. tree_policy P rnd w q = Inr w1
          \<and> default_policy P rnd w1 (s_node (var_v w1)) r0 = Inr (r, w2)
          \<and> backup P w2 Local_v r = Some (Inr w3)
          \<longrightarrow> count_nodes (var_v0 w3) \<le> count_nodes (var_v0 w) + 1)"
proof (intro conjI impI allI)
  assume "node_at (var_v0 w) q = Some n0" "z_st (s_node n0) < 0"
  then show "tree_policy P rnd w q = Inr (w\<lparr>var_v := n0\<rparr>)"
    by (subst tree_policy.simps) (simp add: is_terminal_def)
next
  fix scores
  assume n: "node_at (var_v0 w) q = Some n0"
    and c: "\<not> z_st (s_node n0) < 0 \<and> expendable_actions n0 = []"
    and s: "length scores = length (children n0) \<and> scores \<noteq> []
            \<and> (\<forall>i < length (children n0).
                   get_uct_score P w (children n0 ! i) = Inr (scores ! i))"
  have sc: "uct_scores P w (children n0) = Inr scores"
    using s by (intro uct_scores_link) simp_all
  have nt: "\<not> is_terminal (s_node n0)" and fl: "is_fully_expanded n0"
    using c by (simp_all add: is_terminal_def is_fully_expanded_def)
  have ne: "scores \<noteq> []" using s by simp
  let ?k = "sort_indices scores ! (rnd (rand_calls w) mod length (sort_indices scores))"
  show "set (sort_indices scores)
             = {i. i < length (children n0)
                   \<and> (\<forall>j < length (children n0). scores ! j \<le> scores ! i)}"
    using s sort_indices_set[of scores] by simp
  show "sorted_wrt (<) (sort_indices scores)" by (rule sort_indices_sorted)
  show bne: "sort_indices scores \<noteq> []" using ne by (rule sort_indices_nonempty)
  from tree_policy_select[OF n nt fl sc ne, of rnd]
  show "?k < length (children n0)"
    and "tree_policy P rnd w q
               = tree_policy P rnd (w\<lparr>rand_calls := Suc (rand_calls w)\<rparr>) (q @ [?k])"
    by simp_all
next
  fix scores j
  assume s: "length scores = length (children n0) \<and> scores \<noteq> []
            \<and> (\<forall>i < length (children n0).
                   get_uct_score P w (children n0 ! i) = Inr (scores ! i))"
    and j: "j < length (children n0)"
  then show "scores ! j
      \<le> scores ! (sort_indices scores ! (rnd (rand_calls w) mod length (sort_indices scores)))"
    using sort_indices_pick_max[of scores j "rnd (rand_calls w)"] by simp
next
  assume n: "node_at (var_v0 w) q = Some n0"
    and c: "\<not> z_st (s_node n0) < 0 \<and> expendable_actions n0 \<noteq> []"
  have nt: "\<not> is_terminal (s_node n0)" and nf: "\<not> is_fully_expanded n0"
    using c by (simp_all add: is_terminal_def is_fully_expanded_def)
  show "tree_policy P rnd w q =
          (let k = rnd (rand_calls w) mod length (expendable_actions n0);
               a = expendable_actions n0 ! k
           in case transition_function P ((ac w)\<lparr>s_ac := s_node n0, u_ac := a\<rparr>) (fz w)
                     (time (s_node n0)) (time_step_width P) (sub_time_step_width P) of
                (ac3, fz3, t3) \<Rightarrow>
                  (let c = B03_node (s_ac ac3) a
                             [\<lparr>dalpha = 0, dbeta = 0, dsigma = angle_rate_magnitude P\<rparr>,
                              \<lparr>dalpha = 0, dbeta = 0, dsigma = 0\<rparr>,
                              \<lparr>dalpha = 0, dbeta = 0, dsigma = - angle_rate_magnitude P\<rparr>]
                             0 1 (depth n0 + 1) (Some (In_v0 q)) [];
                       n1 = B03_node (s_node n0) (incoming_action n0)
                              (take k (expendable_actions n0)
                                 @ drop (Suc k) (expendable_actions n0))
                              (average_reward n0) (number_of_visits n0) (depth n0) (parent n0)
                              (children n0 @ [c])
                   in Inr (w\<lparr>ac := ac3, fz := fz3,
                              var_v0 := modify_at (\<lambda>_. n1) q (var_v0 w), var_v := c,
                              rand_calls := Suc (rand_calls w)\<rparr>)))"
    unfolding tree_policy_expand[OF n nt nf, of P rnd]
    by (simp add: get_transition_model_def Let_def erase_def set_state_def set_command_def
          get_state_def get_expendable_actions_def split: prod.splits)
next
  fix n1 assume "node_at (var_v0 w) q = Some n0"
  then show "node_at (modify_at (\<lambda>_. n1) q (var_v0 w)) q = Some n1"
    by (rule node_at_modify_at_same)
next
  show "count_nodes n0 = Suc (sum_list (map count_nodes (children n0)))"
    by (rule count_nodes_children)
next
  fix w' assume "tree_policy P rnd w q = Inr w'"
  then show "count_nodes (var_v0 w') \<le> count_nodes (var_v0 w) + 1"
    by (rule tree_policy_count)
next
  fix w1 r0 r w2 w3
  assume h: "tree_policy P rnd w q = Inr w1
          \<and> default_policy P rnd w1 (s_node (var_v w1)) r0 = Inr (r, w2)
          \<and> backup P w2 Local_v r = Some (Inr w3)"
  have "var_v0 w2 = var_v0 w1"
    using h default_policy_loop_frame
            [of "get_expendable_actions P" P rnd w1 0 "s_node (var_v w1)" r0]
    by (auto simp: default_policy_def get_expendable_actions_def)
  then show "count_nodes (var_v0 w3) \<le> count_nodes (var_v0 w) + 1"
    using h tree_policy_count[of P rnd w q w1] backup_count[of P w2 Local_v r w3] by simp
qed

theorem tree_policy_three_cases_witness:
  "get_uct_score ex_sel_pilot ex_sel_frame (ex_sel_leaf 4 (1/100)) = Inr ex_score_lo
   \<and> get_uct_score ex_sel_pilot ex_sel_frame (ex_sel_leaf 1 0) = Inr ex_score_hi
   \<and> get_uct_score ex_sel_pilot ex_sel_frame (ex_sel_leaf 1 (- (1/100))) = Inr ex_score_hi
   \<and> ex_score_lo < ex_score_hi
   \<and> tree_policy ex_sel_pilot ex_one ex_sel_frame []
       = Inr (ex_sel_frame\<lparr>var_v := ex_sel_leaf 1 (- (1/100)), rand_calls := 1\<rparr>)
   \<and> tree_policy ex_sel_pilot ex_one
         (ex_frame\<lparr>var_v0 := new_node ex_high_state (get_expendable_actions ex_sel_pilot) 0 1 0\<rparr>)
         []
       = Inr (ex_frame\<lparr>ac := ex_ac\<lparr>s_ac := ex_state,
                                    u_ac := \<lparr>dalpha = 0, dbeta = 0, dsigma = 0\<rparr>\<rparr>,
                        var_v0 := B03_node ex_high_state default_command
                                    [\<lparr>dalpha = 0, dbeta = 0, dsigma = 1/100\<rparr>,
                                     \<lparr>dalpha = 0, dbeta = 0, dsigma = - (1/100)\<rparr>]
                                    0 1 0 None
                                    [B03_node ex_state \<lparr>dalpha = 0, dbeta = 0, dsigma = 0\<rparr>
                                       (get_expendable_actions ex_pilot) 0 1 1
                                       (Some (In_v0 [])) []],
                        var_v := B03_node ex_state \<lparr>dalpha = 0, dbeta = 0, dsigma = 0\<rparr>
                                   (get_expendable_actions ex_pilot) 0 1 1 (Some (In_v0 [])) [],
                        rand_calls := 1\<rparr>)"
proof -
  let ?tr = "var_v0 ex_sel_frame"
  let ?S = "[ex_score_lo, ex_score_hi, ex_score_hi]"
  let ?w1 = "ex_sel_frame\<lparr>rand_calls := Suc (rand_calls ex_sel_frame)\<rparr>"
  have g0: "get_uct_score ex_sel_pilot ex_sel_frame (ex_sel_leaf 4 (1/100)) = Inr ex_score_lo"
    and g1: "get_uct_score ex_sel_pilot ex_sel_frame (ex_sel_leaf 1 0) = Inr ex_score_hi"
    and g2: "get_uct_score ex_sel_pilot ex_sel_frame (ex_sel_leaf 1 (- (1/100))) = Inr ex_score_hi"
    by (simp_all add: get_uct_score_def Let_def ex_sel_leaf_def ex_sel_frame_def deref_def
          ex_sel_pilot_def ex_pilot_def ex_score_lo_def ex_score_hi_def)
  have ch: "children ?tr = [ex_sel_leaf 4 (1/100), ex_sel_leaf 1 0, ex_sel_leaf 1 (- (1/100))]"
    by (simp add: ex_sel_frame_def)
  have n: "node_at (var_v0 ex_sel_frame) [] = Some ?tr" by simp
  have cond: "\<not> z_st (s_node ?tr) < 0 \<and> expendable_actions ?tr = []"
    by (simp add: ex_sel_frame_def ex_high_state_def default_state_def)
  have link: "length ?S = length (children ?tr) \<and> ?S \<noteq> []
            \<and> (\<forall>i < length (children ?tr).
                   get_uct_score ex_sel_pilot ex_sel_frame (children ?tr ! i) = Inr (?S ! i))"
    using g0 g1 g2 by (simp add: ch All_less_Suc)
  have k: "sort_indices ?S ! (ex_one (rand_calls ex_sel_frame) mod length (sort_indices ?S)) = 2"
    by (simp add: ex_sort_indices ex_one_def)
  have sel: "tree_policy ex_sel_pilot ex_one ex_sel_frame []
               = tree_policy ex_sel_pilot ex_one ?w1 ([] @ [2])"
    using tree_policy_three_cases[of ex_sel_frame "[]" ?tr ex_sel_pilot ex_one,
            OF n, THEN conjunct2, THEN conjunct1, rule_format, OF cond link]
    by (simp only: k)
  have n2: "node_at (var_v0 ?w1) [2] = Some (ex_sel_leaf 1 (- (1/100)))"
    by (simp add: ex_sel_frame_def)
  have leaf: "tree_policy ex_sel_pilot ex_one ?w1 [2]
                = Inr (?w1\<lparr>var_v := ex_sel_leaf 1 (- (1/100))\<rparr>)"
    using tree_policy_three_cases[of ?w1 "[2]" "ex_sel_leaf 1 (- (1/100))" ex_sel_pilot ex_one,
            OF n2, THEN conjunct1]
    by (simp add: ex_sel_leaf_def ex_terminal_state_def default_state_def)
  have rc: "rand_calls ex_sel_frame = 0" by (simp add: ex_sel_frame_def ex_frame_def)
  have select: "tree_policy ex_sel_pilot ex_one ex_sel_frame []
       = Inr (ex_sel_frame\<lparr>var_v := ex_sel_leaf 1 (- (1/100)), rand_calls := 1\<rparr>)"
    using sel leaf rc by simp
  have expand: "tree_policy ex_sel_pilot ex_one
         (ex_frame\<lparr>var_v0 := new_node ex_high_state (get_expendable_actions ex_sel_pilot) 0 1 0\<rparr>)
         []
       = Inr (ex_frame\<lparr>ac := ex_ac\<lparr>s_ac := ex_state,
                                    u_ac := \<lparr>dalpha = 0, dbeta = 0, dsigma = 0\<rparr>\<rparr>,
                        var_v0 := B03_node ex_high_state default_command
                                    [\<lparr>dalpha = 0, dbeta = 0, dsigma = 1/100\<rparr>,
                                     \<lparr>dalpha = 0, dbeta = 0, dsigma = - (1/100)\<rparr>]
                                    0 1 0 None
                                    [B03_node ex_state \<lparr>dalpha = 0, dbeta = 0, dsigma = 0\<rparr>
                                       (get_expendable_actions ex_pilot) 0 1 1
                                       (Some (In_v0 [])) []],
                        var_v := B03_node ex_state \<lparr>dalpha = 0, dbeta = 0, dsigma = 0\<rparr>
                                   (get_expendable_actions ex_pilot) 0 1 1 (Some (In_v0 [])) [],
                        rand_calls := 1\<rparr>)"
    using tree_policy_three_cases
          [of "ex_frame\<lparr>var_v0 := new_node ex_high_state (get_expendable_actions ex_sel_pilot) 0 1 0\<rparr>"
              "[]" "new_node ex_high_state (get_expendable_actions ex_sel_pilot) 0 1 0"
              ex_sel_pilot ex_one]
    by (simp add: ex_frame_def ex_sel_pilot_def ex_pilot_def ex_one_def
        ex_ac_def ex_state_def ex_high_state_def default_state_def default_command_def
        ex_tf_def Let_def get_expendable_actions_def new_node_def)
  show ?thesis using g0 g1 g2 ex_score_lo_hi select expand by simp
qed

text \<open>
  C2: one simulation from a fresh root in the concrete configuration (rollout return 1,
  discount factor 1/2). Backup has added one visit and \<open>df ^ depth * return\<close> to the local
  copy \<^verbatim>\<open>v\<close> of the frontier node and to the root; the frontier node that the tree holds
  still has the visit count 1 and the return 0 of its construction.
\<close>

theorem backup_updates_copy_not_frontier:
  "simulations ex_pilot ex_rnd ex_uninit
      (ex_frame\<lparr>arg_s := ex_high_state,
          var_v0 := new_node ex_high_state (get_expendable_actions ex_pilot) 0 1 0\<rparr>) 0
     = Some (Inr ex_frame_after)
   \<and> children (var_v0 ex_frame_after) = [ex_child]
   \<and> number_of_visits ex_child = 1 \<and> average_reward ex_child = 0
   \<and> number_of_visits (var_v ex_frame_after) = 2 \<and> average_reward (var_v ex_frame_after) = 1/2
   \<and> number_of_visits (var_v0 ex_frame_after) = 2 \<and> average_reward (var_v0 ex_frame_after) = 1"
  using ex_simulations by (simp add: ex_frame_after_def ex_child_def)

text \<open>
  C3: for a child with a positive visit count and a parent, the scorer returns
  \<open>average_reward + 2 * C * sqrt (2 * ln (visits of the parent) / visits of the child)\<close>;
  it fails its assertion on a visit count of 0. It is a function of the pilot, the frame
  and the node and returns a number only. The loop of \<^verbatim>\<open>operator()\<close> always runs to its
  end, so the assertion never fails there, and \<^verbatim>\<open>operator()\<close> never ends on it.
\<close>

theorem uct_score_formula_and_precondition:
  "(number_of_visits vn \<noteq> 0 \<and> parent vn = Some p \<and> deref w p = Some pn \<longrightarrow>
      get_uct_score P w vn
        = Inr (average_reward vn
               + 2 * uct_parameter P
                 * sqrt (2 * ln (real (unat (number_of_visits pn)))
                         / real (unat (number_of_visits vn)))))
   \<and> (number_of_visits vn = 0 \<longrightarrow> get_uct_score P w vn = Inl Assertion_failed)
   \<and> (\<exists>w1. simulations P rnd uninit
               (w'\<lparr>var_v0 := new_node (arg_s w') (get_expendable_actions P) 0 1 0\<rparr>) 0
             = Some (Inr w1))
   \<and> operator_call P rnd uninit w' \<noteq> Some (Inl Assertion_failed)"
proof (intro conjI impI)
  assume "number_of_visits vn \<noteq> 0 \<and> parent vn = Some p \<and> deref w p = Some pn"
  then show "get_uct_score P w vn
        = Inr (average_reward vn
               + 2 * uct_parameter P
                 * sqrt (2 * ln (real (unat (number_of_visits pn)))
                         / real (unat (number_of_visits vn))))"
    by (simp add: get_uct_score_def Let_def unsigned_eq_0_iff)
next
  assume "number_of_visits vn = 0"
  then show "get_uct_score P w vn = Inl Assertion_failed"
    by (simp add: get_uct_score_def)
next
  show "\<exists>w1. simulations P rnd uninit
               (w'\<lparr>var_v0 := new_node (arg_s w') (get_expendable_actions P) 0 1 0\<rparr>) 0
             = Some (Inr w1)"
    by (rule simulations_always_complete)
next
  from simulations_always_complete[of P rnd uninit w']
  obtain w1 where "simulations P rnd uninit
               (w'\<lparr>var_v0 := new_node (arg_s w') (get_expendable_actions P) 0 1 0\<rparr>) 0
             = Some (Inr w1)" by blast
  then show "operator_call P rnd uninit w' \<noteq> Some (Inl Assertion_failed)"
    using get_best_action_no_assertion[of rnd w1]
    by (auto simp: operator_call_def Let_def split: sum.splits)
qed

theorem uct_score_formula_and_precondition_witness:
  "number_of_visits ex_child \<noteq> 0
   \<and> get_uct_score (ex_pilot\<lparr>uct_parameter := 1\<rparr>) ex_frame_after ex_child
       = Inr (2 * sqrt (2 * ln 2))
   \<and> get_uct_score (ex_pilot\<lparr>uct_parameter := 1\<rparr>) ex_frame_after
         (new_node_stateless [] 0 0 0) = Inl Assertion_failed
   \<and> operator_call (ex_pilot\<lparr>uct_parameter := 1\<rparr>) ex_rnd ex_uninit ex_frame
       \<noteq> Some (Inl Assertion_failed)"
  using uct_score_formula_and_precondition
          [of ex_child "In_v0 []" ex_frame_after "var_v0 ex_frame_after"
              "ex_pilot\<lparr>uct_parameter := 1\<rparr>" ex_rnd ex_uninit ex_frame]
        uct_score_formula_and_precondition
          [of "new_node_stateless [] 0 0 0" "In_v0 []" ex_frame_after "var_v0 ex_frame_after"
              "ex_pilot\<lparr>uct_parameter := 1\<rparr>" ex_rnd ex_uninit ex_frame]
  by (simp add: ex_child_def ex_frame_after_def deref_def new_node_stateless_def)

text \<open>
  C4: when the state that a step of the rollout produces is terminal, the loop stops and
  the reward of that step is not added. With horizon 3, a non-terminal first transition
  and a terminal second one, the rollout adds one term only, the reward of step 0.
\<close>

theorem default_policy_skips_terminal_step:
  "(t < unat (horizon P) \<and> rand_element rnd w actions = Inr (a_t, w1)
      \<and> get_transition_model P w1 s_t a_t = (s_tp, w2) \<and> is_terminal s_tp
     \<longrightarrow> default_policy_loop P rnd w actions t s_t reward = Inr (reward, w2))
   \<and> (horizon P = 3
      \<and> rand_element rnd v (get_expendable_actions P) = Inr (a0, v1)
      \<and> get_transition_model P v1 st a0 = (s1, v2) \<and> \<not> is_terminal s1
      \<and> rand_element rnd v2 (get_expendable_actions P) = Inr (a1, v3)
      \<and> get_transition_model P v3 s1 a1 = (s2, v4) \<and> is_terminal s2
     \<longrightarrow> default_policy P rnd v st reward
           = Inr (reward + df P ^ 0 * get_reward_model st a0 s1, v4))"
proof (intro conjI impI)
  assume "t < unat (horizon P) \<and> rand_element rnd w actions = Inr (a_t, w1)
      \<and> get_transition_model P w1 s_t a_t = (s_tp, w2) \<and> is_terminal s_tp"
  then show "default_policy_loop P rnd w actions t s_t reward = Inr (reward, w2)"
    by (subst default_policy_loop.simps) simp
next
  assume h: "horizon P = 3
      \<and> rand_element rnd v (get_expendable_actions P) = Inr (a0, v1)
      \<and> get_transition_model P v1 st a0 = (s1, v2) \<and> \<not> is_terminal s1
      \<and> rand_element rnd v2 (get_expendable_actions P) = Inr (a1, v3)
      \<and> get_transition_model P v3 s1 a1 = (s2, v4) \<and> is_terminal s2"
  have step1: "default_policy_loop P rnd v2 (get_expendable_actions P) (Suc 0) s1 r
                 = Inr (r, v4)" for r
    using h by (subst default_policy_loop.simps) simp
  show "default_policy P rnd v st reward
          = Inr (reward + df P ^ 0 * get_reward_model st a0 s1, v4)"
    unfolding default_policy_def
    using h step1 by (subst default_policy_loop.simps) simp
qed

theorem default_policy_skips_terminal_step_witness:
  "default_policy_loop ex_pilot ex_rnd ex_frame (get_expendable_actions ex_pilot) 1
      ex_low_state 7 = Inr (7, ex_frame\<lparr>ac := ex_ac\<lparr>s_ac := ex_terminal_state,
          u_ac := \<lparr>dalpha = 0, dbeta = 0, dsigma = 1/100\<rparr>\<rparr>, rand_calls := 1\<rparr>)
   \<and> default_policy ex_pilot ex_rnd ex_frame ex_state 7
       = Inr (7 + 1, ex_frame\<lparr>ac := ex_ac\<lparr>s_ac := ex_terminal_state,
          u_ac := \<lparr>dalpha = 0, dbeta = 0, dsigma = 1/100\<rparr>\<rparr>, rand_calls := 2\<rparr>)"
  using default_policy_skips_terminal_step
    [of 1 ex_pilot ex_rnd ex_frame "get_expendable_actions ex_pilot"
        "\<lparr>dalpha = 0, dbeta = 0, dsigma = 1/100\<rparr>"
        "ex_frame\<lparr>rand_calls := 1\<rparr>" ex_low_state ex_terminal_state
        "ex_frame\<lparr>ac := ex_ac\<lparr>s_ac := ex_terminal_state,
          u_ac := \<lparr>dalpha = 0, dbeta = 0, dsigma = 1/100\<rparr>\<rparr>, rand_calls := 1\<rparr>"
        7 ex_frame "\<lparr>dalpha = 0, dbeta = 0, dsigma = 1/100\<rparr>"
        "ex_frame\<lparr>rand_calls := 1\<rparr>" ex_state ex_low_state
        "ex_frame\<lparr>ac := ex_ac\<lparr>s_ac := ex_low_state,
          u_ac := \<lparr>dalpha = 0, dbeta = 0, dsigma = 1/100\<rparr>\<rparr>, rand_calls := 1\<rparr>"
        "\<lparr>dalpha = 0, dbeta = 0, dsigma = 1/100\<rparr>"
        "ex_frame\<lparr>ac := ex_ac\<lparr>s_ac := ex_low_state,
          u_ac := \<lparr>dalpha = 0, dbeta = 0, dsigma = 1/100\<rparr>\<rparr>, rand_calls := 2\<rparr>"
        ex_terminal_state
        "ex_frame\<lparr>ac := ex_ac\<lparr>s_ac := ex_terminal_state,
          u_ac := \<lparr>dalpha = 0, dbeta = 0, dsigma = 1/100\<rparr>\<rparr>, rand_calls := 2\<rparr>"]
  by (simp add: ex_pilot_def ex_rnd_def ex_frame_def ex_ac_def ex_state_def ex_low_state_def
        ex_terminal_state_def default_state_def get_expendable_actions_def rand_element_def
        rand_indice_def get_transition_model_def set_state_def set_command_def get_state_def
        ex_tf_def is_terminal_def get_reward_model_def)

text \<open>
  C5: for a root state that is not terminal, the loop of \<^verbatim>\<open>operator()\<close> runs to its end
  and leaves the root with the visit count \<open>1 + budget\<close> (unsigned 32-bit arithmetic): the
  root is constructed with the count 1 and each simulation adds 1. With a positive budget
  \<^verbatim>\<open>operator()\<close> returns with that count.
\<close>

theorem root_visits_one_plus_budget:
  "\<not> is_terminal (arg_s w) \<Longrightarrow>
     (\<exists>w1. simulations P rnd uninit
              (w\<lparr>var_v0 := new_node (arg_s w) (get_expendable_actions P) 0 1 0\<rparr>) 0
            = Some (Inr w1)
          \<and> number_of_visits (var_v0 w1) = 1 + computational_budget P)
     \<and> (0 < computational_budget P \<longrightarrow>
          (\<exists>w'. operator_call P rnd uninit w = Some (Inr w')
               \<and> number_of_visits (var_v0 w') = 1 + computational_budget P))"
  using simulations_from_root[of w P rnd uninit] operator_call_returns[of w P rnd uninit]
  by blast

theorem root_visits_one_plus_budget_witness:
  "\<not> is_terminal (arg_s (ex_frame\<lparr>arg_s := ex_high_state\<rparr>))
   \<and> 0 < computational_budget ex_pilot
   \<and> (\<exists>w'. operator_call ex_pilot ex_rnd ex_uninit (ex_frame\<lparr>arg_s := ex_high_state\<rparr>)
             = Some (Inr w')
           \<and> number_of_visits (var_v0 w') = 2)"
  using root_visits_one_plus_budget
          [of "ex_frame\<lparr>arg_s := ex_high_state\<rparr>" ex_pilot ex_rnd ex_uninit]
  by (simp add: is_terminal_def ex_high_state_def default_state_def ex_pilot_def)

theorem root_visits_counterexample:
  "computational_budget ex_pilot = 1
   \<and> operator_call ex_pilot ex_rnd ex_uninit (ex_frame\<lparr>arg_s := ex_high_state\<rparr>)
       = Some (Inr (ex_frame_after\<lparr>arg_a := \<lparr>dalpha = 0, dbeta = 0, dsigma = 1/100\<rparr>,
                                 rand_calls := 4\<rparr>))
   \<and> number_of_visits (var_v0 (ex_frame_after\<lparr>arg_a := \<lparr>dalpha = 0, dbeta = 0, dsigma = 1/100\<rparr>,
                                 rand_calls := 4\<rparr>)) = 2"
  using ex_operator_call by (simp add: ex_pilot_def ex_frame_after_def)

text \<open>
  C6: with a terminal root state \<^verbatim>\<open>operator()\<close> returns no action, whatever the budget: the
  root never gets a child and \<^verbatim>\<open>get_best_action\<close> fails on the empty vector of children.
  The recovery action is what the separate method \<^verbatim>\<open>out_of_range\<close> writes; the stepper
  calls it instead of \<^verbatim>\<open>operator()\<close> when the aircraft is beyond 1200 from the centre,
  whether the state is terminal or not.
\<close>

theorem terminal_root_gives_no_action:
  "is_terminal (arg_s w) \<Longrightarrow>
     operator_call P rnd uninit w = Some (Inl Undefined_behaviour)
     \<and> arg_a (out_of_range P w)
         = \<lparr>dalpha = 0, dbeta = 0,
            dsigma = (if sigma (arg_s w) < 0.4 then angle_rate_magnitude P else 0)\<rparr>
     \<and> apply_policy P rnd uninit w
         = (if get_distance_to_center (arg_s w) > 1200 then Some (Inr (out_of_range P w))
            else Some (Inl Undefined_behaviour))"
  using operator_call_terminal_root[of w P rnd uninit]
  by (simp add: out_of_range_def Let_def apply_policy_def)

theorem terminal_root_gives_no_action_witness:
  "is_terminal (arg_s (ex_frame\<lparr>arg_s := ex_terminal_state\<rparr>))
   \<and> operator_call ex_pilot ex_rnd ex_uninit (ex_frame\<lparr>arg_s := ex_terminal_state\<rparr>)
       = Some (Inl Undefined_behaviour)
   \<and> arg_a (out_of_range ex_pilot (ex_frame\<lparr>arg_s := ex_terminal_state\<rparr>))
       = \<lparr>dalpha = 0, dbeta = 0, dsigma = 1/100\<rparr>
   \<and> apply_policy ex_pilot ex_rnd ex_uninit (ex_frame\<lparr>arg_s := ex_terminal_state\<rparr>)
       = Some (Inl Undefined_behaviour)
   \<and> is_terminal (arg_s (ex_frame\<lparr>arg_s := ex_far_state\<rparr>))
   \<and> apply_policy ex_pilot ex_rnd ex_uninit (ex_frame\<lparr>arg_s := ex_far_state\<rparr>)
       = Some (Inr (ex_frame\<lparr>arg_s := ex_far_state,
                              arg_a := \<lparr>dalpha = 0, dbeta = 0, dsigma = 1/100\<rparr>\<rparr>))"
  using terminal_root_gives_no_action
    [of "ex_frame\<lparr>arg_s := ex_terminal_state\<rparr>" ex_pilot ex_rnd ex_uninit]
    terminal_root_gives_no_action
    [of "ex_frame\<lparr>arg_s := ex_far_state\<rparr>" ex_pilot ex_rnd ex_uninit]
    ex_far_distance ex_terminal_distance
  by (simp add: is_terminal_def ex_terminal_state_def ex_far_state_def default_state_def
        ex_pilot_def out_of_range_def ex_frame_def default_command_def)

theorem terminal_root_counterexample:
  "is_terminal (arg_s (ex_frame\<lparr>arg_s := ex_terminal_state\<rparr>))
   \<and> operator_call ex_pilot ex_rnd ex_uninit (ex_frame\<lparr>arg_s := ex_terminal_state\<rparr>)
       = Some (Inl Undefined_behaviour)"
proof -
  have t: "is_terminal (arg_s (ex_frame\<lparr>arg_s := ex_terminal_state\<rparr>))"
    by (simp add: is_terminal_def ex_terminal_state_def default_state_def)
  from operator_call_terminal_root[OF t, of ex_pilot ex_rnd ex_uninit] t
  show ?thesis by simp
qed

text \<open>
  C7: the rollout adds its discounted rewards to whatever the caller's variable holds at
  entry, and \<^verbatim>\<open>operator()\<close> declares that variable without an initial value. In the
  concrete configuration one step is executed, with reward 1: an entry value of 5 gives 6,
  an entry value of 0 gives the sum of the step rewards.
\<close>

theorem default_policy_adds_to_entry_value:
  "map_sum id fst (default_policy ex_pilot ex_rnd ex_frame ex_state 5) = Inr 6
   \<and> map_sum id fst (default_policy ex_pilot ex_rnd ex_frame ex_state 0) = Inr 1"
proof -
  have "map_sum id fst (default_policy ex_pilot ex_rnd ex_frame ex_state r) = Inr (r + 1)" for r
    unfolding default_policy_def
    apply (subst default_policy_loop.simps)
    apply (simp add: ex_pilot_def ex_rnd_def ex_frame_def ex_ac_def ex_state_def
        default_state_def get_expendable_actions_def rand_element_def
        rand_indice_def get_transition_model_def set_state_def set_command_def get_state_def
        ex_tf_def is_terminal_def get_reward_model_def)
    apply (subst default_policy_loop.simps)
    apply (simp add: rand_element_def
        rand_indice_def get_transition_model_def set_state_def set_command_def get_state_def
        ex_tf_def is_terminal_def get_reward_model_def)
    done
  from this[of 5] this[of 0] show ?thesis by simp
qed

text \<open>
  C8: with budget 0 \<^verbatim>\<open>operator()\<close> returns no action: no simulation runs, the root has no
  children and \<^verbatim>\<open>get_best_action\<close> fails on the empty vector of children. With a positive
  budget and a root state that is not terminal it returns the incoming action of a child
  of the root with maximal accumulated return.
\<close>

theorem zero_budget_gives_no_action:
  "(computational_budget P = 0 \<longrightarrow>
      operator_call P rnd uninit w = Some (Inl Undefined_behaviour))
   \<and> (0 < computational_budget P \<and> \<not> is_terminal (arg_s w) \<longrightarrow>
        (\<exists>w' c. operator_call P rnd uninit w = Some (Inr w')
           \<and> c \<in> set (children (var_v0 w')) \<and> arg_a w' = incoming_action c
           \<and> (\<forall>c' \<in> set (children (var_v0 w')). average_reward c' \<le> average_reward c)))"
proof (intro conjI impI)
  assume "computational_budget P = 0"
  then show "operator_call P rnd uninit w = Some (Inl Undefined_behaviour)"
    by (rule operator_call_zero_budget)
next
  assume "0 < computational_budget P \<and> \<not> is_terminal (arg_s w)"
  then show "\<exists>w' c. operator_call P rnd uninit w = Some (Inr w')
           \<and> c \<in> set (children (var_v0 w')) \<and> arg_a w' = incoming_action c
           \<and> (\<forall>c' \<in> set (children (var_v0 w')). average_reward c' \<le> average_reward c)"
    using operator_call_returns[of w P rnd uninit] by blast
qed

theorem zero_budget_gives_no_action_witness:
  "computational_budget (ex_pilot\<lparr>computational_budget := 0\<rparr>) = 0
   \<and> operator_call (ex_pilot\<lparr>computational_budget := 0\<rparr>) ex_rnd ex_uninit ex_frame
       = Some (Inl Undefined_behaviour)
   \<and> 0 < computational_budget ex_pilot
   \<and> \<not> is_terminal (arg_s (ex_frame\<lparr>arg_s := ex_high_state\<rparr>))
   \<and> (\<exists>w' c. operator_call ex_pilot ex_rnd ex_uninit (ex_frame\<lparr>arg_s := ex_high_state\<rparr>)
                = Some (Inr w')
              \<and> c = ex_child \<and> children (var_v0 w') = [c] \<and> arg_a w' = incoming_action c)"
  using zero_budget_gives_no_action
          [of "ex_pilot\<lparr>computational_budget := 0\<rparr>" ex_rnd ex_uninit ex_frame]
        zero_budget_gives_no_action
          [of ex_pilot ex_rnd ex_uninit "ex_frame\<lparr>arg_s := ex_high_state\<rparr>"]
        ex_operator_call
  by (simp add: ex_pilot_def is_terminal_def ex_high_state_def default_state_def
        ex_frame_after_def)

theorem zero_budget_counterexample:
  "operator_call (ex_pilot\<lparr>computational_budget := 0\<rparr>) ex_rnd ex_uninit ex_frame
     = Some (Inl Undefined_behaviour)"
  using operator_call_zero_budget
    [of "ex_pilot\<lparr>computational_budget := 0\<rparr>" ex_rnd ex_uninit ex_frame]
  by simp

text \<open>
  C9: whenever \<^verbatim>\<open>operator()\<close> returns, the caller's state behind \<^verbatim>\<open>_s\<close> is what it was at
  entry, and it is the state of the root; with a non-terminal root state and a positive
  budget it does return. The pilot's own aircraft and flight zone are what the transition
  function leaves behind after \<^verbatim>\<open>set_state\<close> and \<^verbatim>\<open>set_command\<close>, at every call of the
  transition model.
\<close>

theorem caller_state_kept_pilot_aircraft_written:
  "(\<forall>w'. operator_call P rnd uninit w = Some (Inr w')
         \<longrightarrow> arg_s w' = arg_s w \<and> s_node (var_v0 w') = arg_s w)
   \<and> (\<not> is_terminal (arg_s w) \<and> 0 < computational_budget P
         \<longrightarrow> (\<exists>w'. operator_call P rnd uninit w = Some (Inr w')))
   \<and> (\<forall>st a st' w''. get_transition_model P w st a = (st', w'')
         \<longrightarrow> arg_s w'' = arg_s w
           \<and> (ac w'', fz w'')
               = (case transition_function P (set_command (set_state (ac w) st) a) (fz w)
                         (time st) (time_step_width P) (sub_time_step_width P) of
                    (ac3, fz3, t3) \<Rightarrow> (ac3, fz3)))"
proof (intro conjI allI impI)
  fix w' assume "operator_call P rnd uninit w = Some (Inr w')"
  from operator_call_arg_s[OF this]
  show "arg_s w' = arg_s w" "s_node (var_v0 w') = arg_s w" by simp_all
next
  assume "\<not> is_terminal (arg_s w) \<and> 0 < computational_budget P"
  then show "\<exists>w'. operator_call P rnd uninit w = Some (Inr w')"
    using operator_call_returns[of w P rnd uninit] by blast
next
  fix st a st' w'' assume g: "get_transition_model P w st a = (st', w'')"
  then show "arg_s w'' = arg_s w"
    using get_transition_model_frame[OF g] by simp
  show "(ac w'', fz w'')
               = (case transition_function P (set_command (set_state (ac w) st) a) (fz w)
                         (time st) (time_step_width P) (sub_time_step_width P) of
                    (ac3, fz3, t3) \<Rightarrow> (ac3, fz3))"
    using g by (auto simp: get_transition_model_def Let_def split: prod.splits)
qed

theorem caller_state_kept_pilot_aircraft_written_witness:
  "operator_call ex_pilot ex_rnd ex_uninit (ex_frame\<lparr>arg_s := ex_high_state\<rparr>)
       = Some (Inr (ex_frame_after\<lparr>arg_a := \<lparr>dalpha = 0, dbeta = 0, dsigma = 1/100\<rparr>,
                                 rand_calls := 4\<rparr>))
   \<and> arg_s (ex_frame_after\<lparr>arg_a := \<lparr>dalpha = 0, dbeta = 0, dsigma = 1/100\<rparr>,
                                 rand_calls := 4\<rparr>) = ex_high_state
   \<and> s_node (var_v0 (ex_frame_after\<lparr>arg_a := \<lparr>dalpha = 0, dbeta = 0, dsigma = 1/100\<rparr>,
                                 rand_calls := 4\<rparr>)) = ex_high_state
   \<and> get_transition_model ex_pilot ex_frame ex_state default_command
       = (ex_low_state, ex_frame\<lparr>ac := ex_ac\<lparr>s_ac := ex_low_state\<rparr>\<rparr>)"
  using caller_state_kept_pilot_aircraft_written
          [of ex_pilot ex_rnd ex_uninit "ex_frame\<lparr>arg_s := ex_high_state\<rparr>"]
        caller_state_kept_pilot_aircraft_written
          [of ex_pilot ex_rnd ex_uninit ex_frame]
        ex_operator_call
  by (simp add: ex_frame_after_def get_transition_model_def Let_def set_state_def
        set_command_def get_state_def ex_pilot_def ex_tf_def ex_frame_def ex_ac_def
        ex_state_def ex_low_state_def default_state_def default_command_def)

theorem pilot_aircraft_counterexample:
  "operator_call ex_pilot ex_rnd ex_uninit (ex_frame\<lparr>arg_s := ex_high_state\<rparr>)
       = Some (Inr (ex_frame_after\<lparr>arg_a := \<lparr>dalpha = 0, dbeta = 0, dsigma = 1/100\<rparr>,
                                 rand_calls := 4\<rparr>))
   \<and> ac (ex_frame\<lparr>arg_s := ex_high_state\<rparr>) = ex_ac
   \<and> ac (ex_frame_after\<lparr>arg_a := \<lparr>dalpha = 0, dbeta = 0, dsigma = 1/100\<rparr>,
                                 rand_calls := 4\<rparr>)
       = ex_ac\<lparr>s_ac := ex_terminal_state, u_ac := \<lparr>dalpha = 0, dbeta = 0, dsigma = 1/100\<rparr>\<rparr>
   \<and> ex_ac\<lparr>s_ac := ex_terminal_state, u_ac := \<lparr>dalpha = 0, dbeta = 0, dsigma = 1/100\<rparr>\<rparr>
       \<noteq> ex_ac"
  using ex_operator_call
  by (simp add: ex_frame_after_def ex_frame_def ex_ac_def ex_terminal_state_def
        default_state_def default_command_def)

text \<open>
  C10: the reward model returns \<open>s_t.zdot + s_t.V * s_t.Vdot / 9.81\<close>; it depends on the
  state before the transition only, whatever the action and the resulting state.
\<close>

theorem get_reward_model_pre_state_only:
  "get_reward_model s_t a_t s_tp = zdot s_t + V_st s_t * Vdot s_t / 9.81
   \<and> get_reward_model s_t a_t s_tp = get_reward_model s_t a_t' s_tp'"
  by (simp add: get_reward_model_def)

end
